theory Spec2Isabelle
  imports Main
begin

section \<open>The free store\<close>

text \<open>
  \<^verbatim>\<open>SJCVector\<close> is a resource-managing class: an object owns at most one array on the
  free store, through its member \<^verbatim>\<open>ptr_\<close>.  Which object points to which array decides
  the copy, move and assignment properties, so the arrays live in an explicit store.  A
  store is the list of all blocks handed out so far; the address of a block is its
  position, \<open>Some xs\<close> is a live array with elements \<open>xs\<close>, \<open>None\<close> a block that has
  been released.  An address is never handed out twice.
\<close>

type_synonym addr = nat

type_synonym 'a heap = "'a list option list"

text \<open>
  Everything that keeps a computation from returning normally.  \<open>BadAlloc\<close> is the
  exception thrown by \<^verbatim>\<open>new\<close> and \<^verbatim>\<open>std::make_unique\<close>; the others are undefined
  behaviour of C++ that the model makes a value.  Of these, \<open>Overrun s\<close> is a write of
  \<^verbatim>\<open>std::copy\<close> past the end of its destination: an execution goes on after it, in the
  state \<open>s\<close>, as long as what was written past the end has hit nothing the program uses,
  and so does the model; what it hit is outside the model.  A computation that has had an
  overrun ends in \<open>Inl (Overrun s)\<close>, with the state \<open>s\<close> it has reached, and never in
  \<open>Inr\<close>.  The other faults end the computation where they occur.
\<close>

datatype 's fault =
    BadAlloc
  | NullAccess
  | DanglingAccess
  | OutOfBounds
  | InvalidFree
  | SignedOverflow
  | NoSuchObject
  | Overrun 's

type_synonym 's outcome = "'s fault + 's"

fun carry :: "'s fault \<Rightarrow> ('s \<Rightarrow> 't fault + 't) \<Rightarrow> 't fault + 't" where
  "carry (Overrun s) f = (case f s of Inl e \<Rightarrow> Inl e | Inr t \<Rightarrow> Inl (Overrun t))"
| "carry BadAlloc f = Inl BadAlloc"
| "carry NullAccess f = Inl NullAccess"
| "carry DanglingAccess f = Inl DanglingAccess"
| "carry OutOfBounds f = Inl OutOfBounds"
| "carry InvalidFree f = Inl InvalidFree"
| "carry SignedOverflow f = Inl SignedOverflow"
| "carry NoSuchObject f = Inl NoSuchObject"

definition bindR :: "'s fault + 's \<Rightarrow> ('s \<Rightarrow> 't fault + 't) \<Rightarrow> 't fault + 't" where
  "bindR m f = (case m of Inl e \<Rightarrow> carry e f | Inr x \<Rightarrow> f x)"

text \<open>The state in which a computation ends, if it ends in one.\<close>

fun final :: "'s fault + 's \<Rightarrow> 's option" where
  "final (Inr s) = Some s"
| "final (Inl (Overrun s)) = Some s"
| "final (Inl e) = None"

text \<open>
  \<^verbatim>\<open>size_t\<close> is an unsigned and \<^verbatim>\<open>long long\<close> a signed 64-bit integer; \<open>to_size_t\<close> and
  \<open>to_long_long\<close> are the conversions the comparisons and assignments between the two
  apply.  No array object is larger than \<^verbatim>\<open>PTRDIFF_MAX\<close> bytes, so a request for more than
  \<open>2^63 - 1\<close> elements throws on every implementation.  Every smaller request succeeds
  here; an allocator that gives up earlier turns a run that returns into one that throws
  \<open>BadAlloc\<close>, and nothing else.
\<close>

definition max_alloc :: int where
  "max_alloc = 2 ^ 63 - 1"

definition to_size_t :: "int \<Rightarrow> nat" where
  "to_size_t i = nat (i mod 2 ^ 64)"

definition to_long_long :: "nat \<Rightarrow> int" where
  "to_long_long n = (let m = int n mod 2 ^ 64 in if m < 2 ^ 63 then m else m - 2 ^ 64)"

definition lookup :: "'a heap \<Rightarrow> addr \<Rightarrow> 'a list option" where
  "lookup h a = (if a < length h then h ! a else None)"

text \<open>\<^verbatim>\<open>std::make_unique<T[]>(n)\<close> and \<^verbatim>\<open>new T[n]()\<close>: a new array of \<open>n\<close> value-initialised
  elements (\<open>0\<close> stands for \<^verbatim>\<open>T()\<close>); \<open>n = 0\<close> gives a live array without elements.\<close>

definition alloc :: "nat \<Rightarrow> 'a::zero heap \<Rightarrow> (addr \<times> 'a heap) outcome" where
  "alloc n h =
     (if max_alloc < int n then Inl BadAlloc
      else Inr (length h, h @ [Some (replicate n 0)]))"

text \<open>\<^verbatim>\<open>delete[] p\<close> for a non-null \<open>p\<close>.\<close>

definition free :: "addr \<Rightarrow> 'a heap \<Rightarrow> 'a heap outcome" where
  "free a h =
     (case lookup h a of
        None \<Rightarrow> Inl InvalidFree
      | Some xs \<Rightarrow> Inr (h[a := None]))"

text \<open>What a \<^verbatim>\<open>unique_ptr\<close> does with the array it owned when it is assigned to or
  destroyed, and what \<^verbatim>\<open>delete[] ptr_\<close> does: nothing for a null pointer.\<close>

definition release :: "addr option \<Rightarrow> 'a heap \<Rightarrow> 'a heap outcome" where
  "release p h = (case p of None \<Rightarrow> Inr h | Some a \<Rightarrow> free a h)"

text \<open>\<^verbatim>\<open>std::copy(src, src + k, dst)\<close>: an empty range touches nothing; otherwise both
  pointers must point to live arrays, the source of at least \<open>k\<close> elements.  When the
  destination has fewer than \<open>k\<close> elements it is filled and the rest is written past its
  end.\<close>

definition copy_elems ::
  "addr option \<Rightarrow> nat \<Rightarrow> addr option \<Rightarrow> 'a heap \<Rightarrow> 'a heap outcome" where
  "copy_elems src k dst h =
     (if k = 0 then Inr h
      else case src of
        None \<Rightarrow> Inl NullAccess
      | Some s \<Rightarrow>
          (case dst of
             None \<Rightarrow> Inl NullAccess
           | Some d \<Rightarrow>
               (case lookup h s of
                  None \<Rightarrow> Inl DanglingAccess
                | Some sb \<Rightarrow>
                    (case lookup h d of
                       None \<Rightarrow> Inl DanglingAccess
                     | Some db \<Rightarrow>
                         if k \<le> length sb \<and> k \<le> length db
                         then Inr (h[d := Some (take k sb @ drop k db)])
                         else if k \<le> length sb
                         then Inl (Overrun (h[d := Some (take (length db) sb)]))
                         else Inl OutOfBounds))))"

text \<open>\<^verbatim>\<open>p[i]\<close> read and \<^verbatim>\<open>p[i] = x\<close>.  A read leaves the store as it is: its fault is a
  fault of a computation on any state.\<close>

definition read_elem :: "addr option \<Rightarrow> int \<Rightarrow> 'a heap \<Rightarrow> 's fault + 'a" where
  "read_elem p i h =
     (case p of
        None \<Rightarrow> Inl NullAccess
      | Some a \<Rightarrow>
          (case lookup h a of
             None \<Rightarrow> Inl DanglingAccess
           | Some xs \<Rightarrow>
               if 0 \<le> i \<and> nat i < length xs then Inr (xs ! nat i) else Inl OutOfBounds))"

definition write_elem :: "addr option \<Rightarrow> int \<Rightarrow> 'a \<Rightarrow> 'a heap \<Rightarrow> 'a heap outcome" where
  "write_elem p i x h =
     (case p of
        None \<Rightarrow> Inl NullAccess
      | Some a \<Rightarrow>
          (case lookup h a of
             None \<Rightarrow> Inl DanglingAccess
           | Some xs \<Rightarrow>
               if 0 \<le> i \<and> nat i < length xs
               then Inr (h[a := Some (xs[nat i := x])])
               else Inl OutOfBounds))"

section \<open>The class, \<^verbatim>\<open>unique_ptr\<close> variant\<close>

text \<open>
  The repository has three versions of \<^verbatim>\<open>SJCVector.h\<close>.  This section follows the class
  template that keeps its array in a \<^verbatim>\<open>std::unique_ptr<T[]>\<close>, compiled with
  \<^verbatim>\<open>BY_VAL_OPERATOR\<close>; the version for \<^verbatim>\<open>int\<close> only has the same member functions, apart
  from the label \<^verbatim>\<open>unnamed\<close> it starts with.  The version with a raw pointer follows in
  the next section.

  The members: a member \<^verbatim>\<open>x_\<close> of the class is the field \<open>m_x\<close>, since no Isabelle name
  ends in an underscore.  \<open>m_ptr = None\<close> is the null pointer.  \<^verbatim>\<open>first_\<close> is never read by
  the class except to swap it; \<open>None\<close> is the indeterminate value a constructor leaves
  when it does not set the member.  The elements are of a type with \<open>0\<close> for \<^verbatim>\<open>T()\<close>.
  Console output is not modelled.
\<close>

record SJCVector =
  m_ptr :: "addr option"
  m_size :: nat
  m_first :: "nat option"
  m_last :: int
  m_name :: string

definition emptyVec :: int where
  "emptyVec = - 1"

definition rename :: "string \<Rightarrow> SJCVector \<Rightarrow> SJCVector" where
  "rename newName v = v\<lparr>m_name := newName\<rparr>"

text \<open>\<^verbatim>\<open>initSJCVector\<close> on an object under construction whose label is \<open>nm\<close>.\<close>

definition initSJCVector :: "nat \<Rightarrow> string \<Rightarrow> 'a::zero heap \<Rightarrow> (SJCVector \<times> 'a heap) outcome" where
  "initSJCVector initialSize nm h =
     bindR (alloc initialSize h) (\<lambda>(a, h1).
       Inr (\<lparr>m_ptr = Some a, m_size = initialSize, m_first = Some 0, m_last = emptyVec,
             m_name = nm\<rparr>, h1))"

definition SJCVector_default :: "'a::zero heap \<Rightarrow> (SJCVector \<times> 'a heap) outcome" where
  "SJCVector_default h = initSJCVector 1 [] h"

definition SJCVector_size :: "nat \<Rightarrow> 'a::zero heap \<Rightarrow> (SJCVector \<times> 'a heap) outcome" where
  "SJCVector_size n h = initSJCVector n [] h"

definition SJCVector_named :: "string \<Rightarrow> nat \<Rightarrow> 'a::zero heap \<Rightarrow> (SJCVector \<times> 'a heap) outcome" where
  "SJCVector_named nm n h = initSJCVector n nm h"

text \<open>The destructor: the \<^verbatim>\<open>unique_ptr\<close> member releases the array.\<close>

definition dtor :: "SJCVector \<Rightarrow> 'a heap \<Rightarrow> 'a heap outcome" where
  "dtor v h = release (m_ptr v) h"

definition copy_ctor :: "SJCVector \<Rightarrow> 'a::zero heap \<Rightarrow> (SJCVector \<times> 'a heap) outcome" where
  "copy_ctor rhs h =
     bindR (initSJCVector (m_size rhs) [] h) (\<lambda>(v, h1).
     bindR (copy_elems (m_ptr rhs) (m_size v) (m_ptr v) h1) (\<lambda>h2.
       Inr (rename ''copy'' (v\<lparr>m_last := m_last rhs\<rparr>), h2)))"

text \<open>The move constructor returns the new object and what is left of \<open>rhs\<close>.\<close>

definition move_ctor :: "SJCVector \<Rightarrow> SJCVector \<times> SJCVector" where
  "move_ctor rhs =
     (\<lparr>m_ptr = m_ptr rhs, m_size = m_size rhs, m_first = None, m_last = m_last rhs, m_name = []\<rparr>,
      rhs\<lparr>m_ptr := None, m_size := 0, m_last := emptyVec\<rparr>)"

text \<open>\<^verbatim>\<open>a.swap(b)\<close> returns the new \<open>a\<close> and the new \<open>b\<close>; the labels stay.\<close>

definition swap :: "SJCVector \<Rightarrow> SJCVector \<Rightarrow> SJCVector \<times> SJCVector" where
  "swap a b =
     (a\<lparr>m_ptr := m_ptr b, m_size := m_size b, m_first := m_first b, m_last := m_last b\<rparr>,
      b\<lparr>m_ptr := m_ptr a, m_size := m_size a, m_first := m_first a, m_last := m_last a\<rparr>)"

text \<open>The by-value assignment operator: \<open>copy\<close> is the parameter object, which the caller
  has copy- or move-constructed; it is destroyed when the call is over.\<close>

definition assign :: "SJCVector \<Rightarrow> SJCVector \<Rightarrow> 'a heap \<Rightarrow> (SJCVector \<times> 'a heap) outcome" where
  "assign this copy h =
     (let (copy1, this1) = swap copy this
      in bindR (dtor copy1 h) (\<lambda>h1. Inr (this1, h1)))"

text \<open>\<^verbatim>\<open>a = b\<close> and \<^verbatim>\<open>a = std::move(b)\<close> for two objects; the second returns the new \<open>a\<close>,
  the new \<open>b\<close> and the store.\<close>

definition assign_copy :: "SJCVector \<Rightarrow> SJCVector \<Rightarrow> 'a::zero heap \<Rightarrow> (SJCVector \<times> 'a heap) outcome" where
  "assign_copy this rhs h = bindR (copy_ctor rhs h) (\<lambda>(c, h1). assign this c h1)"

definition assign_move ::
  "SJCVector \<Rightarrow> SJCVector \<Rightarrow> 'a heap \<Rightarrow> (SJCVector \<times> SJCVector \<times> 'a heap) outcome" where
  "assign_move this rhs h =
     (let (c, rhs1) = move_ctor rhs
      in bindR (assign this c h) (\<lambda>(this1, h1). Inr (this1, rhs1, h1)))"

definition resize :: "nat \<Rightarrow> SJCVector \<Rightarrow> 'a::zero heap \<Rightarrow> (SJCVector \<times> 'a heap) outcome" where
  "resize newSize0 v h =
     (let newSize = (if newSize0 = 0 then 1 else newSize0)
      in bindR (alloc newSize h) (\<lambda>(newptr, h1).
           if 0 \<le> m_last v then
             let l = (if newSize \<le> to_size_t (m_last v) then to_long_long (newSize - 1)
                      else m_last v)
             in bindR (if 0 < newSize then copy_elems (m_ptr v) (m_size v) (Some newptr) h1
                       else Inr h1) (\<lambda>h2.
                bindR (release (m_ptr v) h2) (\<lambda>h3.
                  Inr (v\<lparr>m_ptr := Some newptr, m_size := newSize, m_last := l\<rparr>, h3)))
           else
             bindR (release (m_ptr v) h1) (\<lambda>h3.
               Inr (v\<lparr>m_ptr := Some newptr, m_size := newSize\<rparr>, h3))))"

text \<open>The private \<^verbatim>\<open>resize()\<close>: \<^verbatim>\<open>size_ * 2 + 1\<close> is computed in \<^verbatim>\<open>size_t\<close>.\<close>

definition resize_geometric :: "SJCVector \<Rightarrow> 'a::zero heap \<Rightarrow> (SJCVector \<times> 'a heap) outcome" where
  "resize_geometric v h = resize (to_size_t (int (m_size v) * 2 + 1)) v h"

definition push_back :: "'a \<Rightarrow> SJCVector \<Rightarrow> 'a::zero heap \<Rightarrow> (SJCVector \<times> 'a heap) outcome" where
  "push_back newValue v h =
     bindR (if m_size v = to_size_t (m_last v + 1) \<or> m_size v = 0 then resize_geometric v h
            else Inr (v, h)) (\<lambda>(v1, h1).
       if to_size_t (m_last v1 + 1) < m_size v1 then
         let v2 = v1\<lparr>m_last := m_last v1 + 1\<rparr>
         in bindR (write_elem (m_ptr v2) (m_last v2) newValue h1) (\<lambda>h2. Inr (v2, h2))
       else Inr (v1, h1))"

text \<open>What an observer sees of a container: its occupied slots, in order.\<close>

definition contents :: "SJCVector \<Rightarrow> 'a heap \<Rightarrow> 'a list" where
  "contents v h =
     (case m_ptr v of
        None \<Rightarrow> []
      | Some a \<Rightarrow> (case lookup h a of None \<Rightarrow> [] | Some xs \<Rightarrow> take (nat (m_last v + 1)) xs))"

definition occupied :: "SJCVector \<Rightarrow> int" where
  "occupied v = m_last v + 1"

text \<open>
  \<^verbatim>\<open>operator+\<close>.  The sum of two elements is the \<^verbatim>\<open>+\<close> of the element type \<^verbatim>\<open>T\<close>, which the
  class template takes with \<^verbatim>\<open>T\<close>: the parameter \<open>add\<close>, with \<open>None\<close> where the sum is
  undefined.  For \<^verbatim>\<open>T = int\<close> it is \<open>int_plus\<close>: the sum of two \<^verbatim>\<open>int\<close> that does not fit
  in 32 bits is a signed overflow.  The loop counter is an \<^verbatim>\<open>int\<close> too: incrementing it at
  \<open>2^31 - 1\<close> is a signed overflow.  One round reads \<^verbatim>\<open>rhs.ptr_[i]\<close>, reads
  \<^verbatim>\<open>retVec.ptr_[i]\<close>, adds the first to the second and writes the sum back.
\<close>

definition int_plus :: "int \<Rightarrow> int \<Rightarrow> int option" where
  "int_plus x y = (if - (2 ^ 31) \<le> x + y \<and> x + y < 2 ^ 31 then Some (x + y) else None)"

text \<open>For \<^verbatim>\<open>T = std::string\<close> the sum appends the second string to the first, and \<^verbatim>\<open>T()\<close>
  is the empty string.\<close>

instantiation list :: (type) zero
begin

definition zero_list_def: "(0 :: 'a list) = []"

instance ..

end

definition string_plus :: "string \<Rightarrow> string \<Rightarrow> string option" where
  "string_plus x y = Some (x @ y)"

function add_loop ::
  "('a \<Rightarrow> 'a \<Rightarrow> 'a option) \<Rightarrow> int \<Rightarrow> int \<Rightarrow> addr option \<Rightarrow> addr option \<Rightarrow> 'a heap \<Rightarrow>
     'a heap outcome" where
  "add_loop add i lst ret src h =
     (if i \<le> lst then
        (case read_elem src i h of
           Inl e \<Rightarrow> Inl e
         | Inr y \<Rightarrow>
             (case read_elem ret i h of
                Inl e \<Rightarrow> Inl e
              | Inr x \<Rightarrow>
                  (case add x y of
                     None \<Rightarrow> Inl SignedOverflow
                   | Some z \<Rightarrow>
                       (case write_elem ret i z h of
                          Inl e \<Rightarrow> Inl e
                        | Inr h1 \<Rightarrow>
                            if i = 2 ^ 31 - 1 then Inl SignedOverflow
                            else add_loop add (i + 1) lst ret src h1))))
      else Inr h)"
  by pat_completeness auto
termination
  by (relation "measure (\<lambda>(add, i, lst, ret, src, h). nat (lst + 1 - i))") auto

declare add_loop.simps [simp del]

text \<open>The returned object is the local \<^verbatim>\<open>retVec\<close> itself (the copy is elided); a caller
  that moves from it applies \<open>move_ctor\<close>.\<close>

definition operator_plus ::
  "('a \<Rightarrow> 'a \<Rightarrow> 'a option) \<Rightarrow> SJCVector \<Rightarrow> SJCVector \<Rightarrow> 'a::zero heap \<Rightarrow>
     (SJCVector \<times> 'a heap) outcome" where
  "operator_plus add this rhs h =
     (if m_size rhs = 0 \<or> m_size this = 0 \<or> m_last rhs \<noteq> m_last this then SJCVector_default h
      else bindR (copy_ctor this h) (\<lambda>(retVec0, h1).
             let retVec = rename ''retVec'' retVec0
             in bindR (add_loop add 0 (m_last this) (m_ptr retVec) (m_ptr rhs) h1) (\<lambda>h2.
                  Inr (retVec, h2))))"

section \<open>The class, raw-pointer variant\<close>

text \<open>
  The third header keeps the array in a \<^verbatim>\<open>T*\<close> and releases it by hand.  Its swap, its
  assignment operator and its destructor are the ones above (\<open>dtor\<close> is
  \<^verbatim>\<open>delete[] ptr_\<close>); what differs follows.  \<^verbatim>\<open>new T[n]\<close> leaves scalar elements
  indeterminate; the class writes every slot before it reads it, and the model fills them
  with \<open>0\<close>.  A negative array size makes \<^verbatim>\<open>new\<close> throw.  \<^verbatim>\<open>push_back\<close> takes an \<^verbatim>\<open>int\<close>
  here, which is converted to \<^verbatim>\<open>T\<close>; the model passes the converted value.
\<close>

definition SJCVector_default_raw :: "'a heap \<Rightarrow> (SJCVector \<times> 'a heap) outcome" where
  "SJCVector_default_raw h =
     Inr (\<lparr>m_ptr = None, m_size = 0, m_first = Some 0, m_last = - 1, m_name = []\<rparr>, h)"

definition SJCVector_size_raw :: "nat \<Rightarrow> 'a::zero heap \<Rightarrow> (SJCVector \<times> 'a heap) outcome" where
  "SJCVector_size_raw n h =
     (if n \<noteq> 0 then
        bindR (alloc n h) (\<lambda>(a, h1).
          Inr (\<lparr>m_ptr = Some a, m_size = n, m_first = Some 0, m_last = - 1, m_name = []\<rparr>, h1))
      else Inr (\<lparr>m_ptr = None, m_size = n, m_first = Some 0, m_last = - 1, m_name = []\<rparr>, h))"

definition resize_raw :: "nat \<Rightarrow> SJCVector \<Rightarrow> 'a::zero heap \<Rightarrow> (SJCVector \<times> 'a heap) outcome" where
  "resize_raw newSize0 v h =
     (let newSize = (if newSize0 = 0 then 1 else newSize0)
      in bindR (alloc newSize h) (\<lambda>(newptr, h1).
           if 0 \<le> m_last v then
             let l = (if newSize \<le> to_size_t (m_last v) then to_long_long (newSize - 1)
                      else m_last v)
             in bindR (if 0 < newSize
                       then (if l + 1 < 0 then Inl OutOfBounds
                             else copy_elems (m_ptr v) (nat (l + 1)) (Some newptr) h1)
                       else Inr h1) (\<lambda>h2.
                bindR (release (m_ptr v) h2) (\<lambda>h3.
                  Inr (v\<lparr>m_ptr := Some newptr, m_size := newSize, m_last := l\<rparr>, h3)))
           else
             bindR (release (m_ptr v) h1) (\<lambda>h3.
               Inr (v\<lparr>m_ptr := Some newptr, m_size := newSize\<rparr>, h3))))"

definition SJCVector_named_raw :: "string \<Rightarrow> nat \<Rightarrow> 'a::zero heap \<Rightarrow> (SJCVector \<times> 'a heap) outcome" where
  "SJCVector_named_raw nm newSize h =
     resize_raw newSize \<lparr>m_ptr = None, m_size = 0, m_first = Some 0, m_last = - 1, m_name = nm\<rparr> h"

definition copy_ctor_raw :: "SJCVector \<Rightarrow> 'a::zero heap \<Rightarrow> (SJCVector \<times> 'a heap) outcome" where
  "copy_ctor_raw rhs h =
     (if m_last rhs + 1 < 0 then Inl BadAlloc
      else bindR (alloc (nat (m_last rhs + 1)) h) (\<lambda>(a, h1).
             let v = \<lparr>m_ptr = Some a, m_size = to_size_t (m_last rhs + 1), m_first = None,
                      m_last = m_last rhs, m_name = []\<rparr>
             in bindR (copy_elems (m_ptr rhs) (nat (m_last v + 1)) (m_ptr v) h1) (\<lambda>h2.
                  Inr (rename ''copy'' v, h2))))"

definition assign_copy_raw :: "SJCVector \<Rightarrow> SJCVector \<Rightarrow> 'a::zero heap \<Rightarrow> (SJCVector \<times> 'a heap) outcome" where
  "assign_copy_raw this rhs h = bindR (copy_ctor_raw rhs h) (\<lambda>(c, h1). assign this c h1)"

definition resize_geometric_raw :: "SJCVector \<Rightarrow> 'a::zero heap \<Rightarrow> (SJCVector \<times> 'a heap) outcome" where
  "resize_geometric_raw v h = resize_raw (to_size_t (int (m_size v) * 2 + 1)) v h"

definition push_back_raw :: "'a \<Rightarrow> SJCVector \<Rightarrow> 'a::zero heap \<Rightarrow> (SJCVector \<times> 'a heap) outcome" where
  "push_back_raw newValue v h =
     bindR (if m_size v = to_size_t (m_last v + 1) \<or> m_size v = 0 then resize_geometric_raw v h
            else Inr (v, h)) (\<lambda>(v1, h1).
       if to_size_t (m_last v1 + 1) < m_size v1 then
         let v2 = v1\<lparr>m_last := m_last v1 + 1\<rparr>
         in bindR (write_elem (m_ptr v2) (m_last v2) newValue h1) (\<lambda>h2. Inr (v2, h2))
       else Inr (v1, h1))"

text \<open>Here \<^verbatim>\<open>retVec\<close> is a copy of \<^verbatim>\<open>rhs\<close>, to which the elements of \<^verbatim>\<open>*this\<close> are added:
  slot \<open>i\<close> becomes \<^verbatim>\<open>rhs[i] + this[i]\<close>.\<close>

definition operator_plus_raw ::
  "('a \<Rightarrow> 'a \<Rightarrow> 'a option) \<Rightarrow> SJCVector \<Rightarrow> SJCVector \<Rightarrow> 'a::zero heap \<Rightarrow>
     (SJCVector \<times> 'a heap) outcome" where
  "operator_plus_raw add this rhs h =
     (if m_size rhs = 0 \<or> m_size this = 0 \<or> m_last rhs \<noteq> m_last this
      then SJCVector_default_raw h
      else bindR (copy_ctor_raw rhs h) (\<lambda>(retVec0, h1).
             let retVec = rename ''retVec'' retVec0
             in bindR (add_loop add 0 (m_last this) (m_ptr retVec) (m_ptr this) h1) (\<lambda>h2.
                  Inr (retVec, h2))))"

section \<open>Valid containers and client programs\<close>

text \<open>
  A valid container: the cursor lies between \<open>-1\<close> and the capacity, and the pointer is
  null with capacity \<open>0\<close> or points to a live array of exactly \<open>m_size\<close> elements.
\<close>

definition valid_vec :: "SJCVector \<Rightarrow> 'a heap \<Rightarrow> bool" where
  "valid_vec v h \<longleftrightarrow>
     - 1 \<le> m_last v \<and> m_last v < int (m_size v) \<and> int (m_size v) \<le> max_alloc \<and>
     (case m_ptr v of
        None \<Rightarrow> m_size v = 0
      | Some a \<Rightarrow> (case lookup h a of None \<Rightarrow> False | Some xs \<Rightarrow> length xs = m_size v))"

text \<open>The whole array a container points to, occupied or not.\<close>

definition array_of :: "SJCVector \<Rightarrow> 'a heap \<Rightarrow> 'a list" where
  "array_of v h =
     (case m_ptr v of
        None \<Rightarrow> []
      | Some a \<Rightarrow> (case lookup h a of None \<Rightarrow> [] | Some xs \<Rightarrow> xs))"

text \<open>Two objects do not share an array.\<close>

definition separate :: "SJCVector \<Rightarrow> SJCVector \<Rightarrow> bool" where
  "separate a b \<longleftrightarrow> m_ptr a = None \<or> m_ptr a \<noteq> m_ptr b"

text \<open>\<open>B\<close> in store \<open>h1\<close> is a copy of \<open>A\<close> as it was in store \<open>h\<close>: both are valid, neither
  points to the array of the other, and both show what \<open>A\<close> showed.\<close>

definition copied :: "SJCVector \<Rightarrow> 'a heap \<Rightarrow> SJCVector \<Rightarrow> 'a heap \<Rightarrow> bool" where
  "copied A h B h1 \<longleftrightarrow>
     valid_vec A h1 \<and> valid_vec B h1 \<and> separate A B \<and> separate B A \<and>
     contents A h1 = contents A h \<and> contents B h1 = contents A h \<and> occupied B = occupied A"

text \<open>A run of \<^verbatim>\<open>push_back\<close> calls on one object, as in \<^verbatim>\<open>main\<close>, up to the first fault.\<close>

fun push_back_all :: "'a list \<Rightarrow> SJCVector \<Rightarrow> 'a::zero heap \<Rightarrow> (SJCVector \<times> 'a heap) outcome" where
  "push_back_all [] v h = Inr (v, h)"
| "push_back_all (x # xs) v h =
     (case push_back x v h of Inl e \<Rightarrow> Inl e | Inr (v1, h1) \<Rightarrow> push_back_all xs v1 h1)"

text \<open>The two public mutators and a run of them on one object, up to the first fault,
  for either variant.\<close>

datatype 'a mutation = Append 'a | Resize nat

fun mutate :: "'a mutation \<Rightarrow> SJCVector \<Rightarrow> 'a::zero heap \<Rightarrow> (SJCVector \<times> 'a heap) outcome" where
  "mutate (Append x) v h = push_back x v h"
| "mutate (Resize n) v h = resize n v h"

fun mutate_raw :: "'a mutation \<Rightarrow> SJCVector \<Rightarrow> 'a::zero heap \<Rightarrow> (SJCVector \<times> 'a heap) outcome" where
  "mutate_raw (Append x) v h = push_back_raw x v h"
| "mutate_raw (Resize n) v h = resize_raw n v h"

fun mutate_all :: "'a mutation list \<Rightarrow> SJCVector \<Rightarrow> 'a::zero heap \<Rightarrow> (SJCVector \<times> 'a heap) outcome" where
  "mutate_all [] v h = Inr (v, h)"
| "mutate_all (m # ms) v h =
     (case mutate m v h of Inl e \<Rightarrow> Inl e | Inr (v1, h1) \<Rightarrow> mutate_all ms v1 h1)"

fun mutate_all_raw :: "'a mutation list \<Rightarrow> SJCVector \<Rightarrow> 'a::zero heap \<Rightarrow> (SJCVector \<times> 'a heap) outcome" where
  "mutate_all_raw [] v h = Inr (v, h)"
| "mutate_all_raw (m # ms) v h =
     (case mutate_raw m v h of Inl e \<Rightarrow> Inl e | Inr (v1, h1) \<Rightarrow> mutate_all_raw ms v1 h1)"

text \<open>
  A program is a sequence of calls of the public interface on the objects it has
  constructed so far; objects are numbered in the order of their construction.  A call
  on a number that no object has ends the run.  The objects themselves are not in the
  store: an overrun does not change their members.
\<close>

record 'a world =
  w_heap :: "'a heap"
  w_objs :: "SJCVector list"

datatype 'a call =
    Construct nat
  | ConstructDefault
  | ConstructNamed string nat
  | CopyConstruct nat
  | MoveConstruct nat
  | AssignCopy nat nat
  | AssignMove nat nat
  | PushBack nat 'a
  | ResizeTo nat nat
  | Swap nat nat
  | ConstructPlus nat nat
  | AssignPlus nat nat nat

definition new_object :: "'a world \<Rightarrow> (SJCVector \<times> 'a heap) outcome \<Rightarrow> 'a world outcome" where
  "new_object w r =
     bindR r (\<lambda>(v, h). Inr (w\<lparr>w_heap := h, w_objs := w_objs w @ [v]\<rparr>))"

definition set_object :: "'a world \<Rightarrow> nat \<Rightarrow> (SJCVector \<times> 'a heap) outcome \<Rightarrow> 'a world outcome" where
  "set_object w i r =
     bindR r (\<lambda>(v, h). Inr (w\<lparr>w_heap := h, w_objs := (w_objs w)[i := v]\<rparr>))"

fun step :: "('a \<Rightarrow> 'a \<Rightarrow> 'a option) \<Rightarrow> 'a call \<Rightarrow> 'a::zero world \<Rightarrow> 'a world outcome" where
  "step add (Construct n) w = new_object w (SJCVector_size n (w_heap w))"
| "step add ConstructDefault w = new_object w (SJCVector_default (w_heap w))"
| "step add (ConstructNamed nm n) w = new_object w (SJCVector_named nm n (w_heap w))"
| "step add (CopyConstruct j) w =
     (if j < length (w_objs w) then new_object w (copy_ctor (w_objs w ! j) (w_heap w))
      else Inl NoSuchObject)"
| "step add (MoveConstruct j) w =
     (if j < length (w_objs w) then
        let (v, rhs1) = move_ctor (w_objs w ! j)
        in Inr (w\<lparr>w_objs := (w_objs w)[j := rhs1] @ [v]\<rparr>)
      else Inl NoSuchObject)"
| "step add (AssignCopy i j) w =
     (if i < length (w_objs w) \<and> j < length (w_objs w) then
        set_object w i (assign_copy (w_objs w ! i) (w_objs w ! j) (w_heap w))
      else Inl NoSuchObject)"
| "step add (AssignMove i j) w =
     (if i < length (w_objs w) \<and> j < length (w_objs w) then
        let (c, rhs1) = move_ctor (w_objs w ! j);
            w1 = w\<lparr>w_objs := (w_objs w)[j := rhs1]\<rparr>
        in set_object w1 i (assign (w_objs w1 ! i) c (w_heap w1))
      else Inl NoSuchObject)"
| "step add (PushBack i x) w =
     (if i < length (w_objs w) then set_object w i (push_back x (w_objs w ! i) (w_heap w))
      else Inl NoSuchObject)"
| "step add (ResizeTo i n) w =
     (if i < length (w_objs w) then set_object w i (resize n (w_objs w ! i) (w_heap w))
      else Inl NoSuchObject)"
| "step add (Swap i j) w =
     (if i < length (w_objs w) \<and> j < length (w_objs w) then
        let (a, b) = swap (w_objs w ! i) (w_objs w ! j)
        in Inr (w\<lparr>w_objs := (w_objs w)[i := a, j := b]\<rparr>)
      else Inl NoSuchObject)"
| "step add (ConstructPlus i j) w =
     (if i < length (w_objs w) \<and> j < length (w_objs w) then
        new_object w (operator_plus add (w_objs w ! i) (w_objs w ! j) (w_heap w))
      else Inl NoSuchObject)"
| "step add (AssignPlus k i j) w =
     (if k < length (w_objs w) \<and> i < length (w_objs w) \<and> j < length (w_objs w) then
        set_object w k
          (bindR (operator_plus add (w_objs w ! i) (w_objs w ! j) (w_heap w)) (\<lambda>(c, h1).
             assign (w_objs w ! k) c h1))
      else Inl NoSuchObject)"

text \<open>A run goes on after an overrun, as the execution does, and ends at any other fault.\<close>

primrec run :: "('a \<Rightarrow> 'a \<Rightarrow> 'a option) \<Rightarrow> 'a call list \<Rightarrow> 'a::zero world \<Rightarrow> 'a world outcome" where
  "run add [] w = Inr w"
| "run add (c # cs) w = bindR (step add c w) (run add cs)"

definition empty_world :: "'a world" where
  "empty_world = \<lparr>w_heap = [], w_objs = []\<rparr>"

text \<open>The state invariant of the data model, with the bound that every allocated capacity
  obeys; this is what the operations preserve.\<close>

definition cursor_ok :: "SJCVector \<Rightarrow> bool" where
  "cursor_ok v \<longleftrightarrow>
     - 1 \<le> m_last v \<and> m_last v < int (m_size v) \<and> int (m_size v) \<le> max_alloc"

text \<open>The objects of a program and the store fit together: every object is a valid
  container, and no two objects point to the same array.\<close>

definition world_ok :: "'a world \<Rightarrow> bool" where
  "world_ok w \<longleftrightarrow>
     (\<forall>v\<in>set (w_objs w). valid_vec v (w_heap w)) \<and>
     (\<forall>i<length (w_objs w). \<forall>j<length (w_objs w).
        i \<noteq> j \<longrightarrow> separate (w_objs w ! i) (w_objs w ! j))"

text \<open>The faults a program can run into: an allocation that throws, a call on an object
  that does not exist, a signed overflow in \<^verbatim>\<open>operator+\<close>, and an overrun.  The others are
  an access through a null or a dangling pointer, an access out of bounds and the release
  of a block that is not live.\<close>

fun foreseen :: "'s fault \<Rightarrow> bool" where
  "foreseen BadAlloc = True"
| "foreseen NoSuchObject = True"
| "foreseen SignedOverflow = True"
| "foreseen (Overrun s) = True"
| "foreseen NullAccess = False"
| "foreseen DanglingAccess = False"
| "foreseen OutOfBounds = False"
| "foreseen InvalidFree = False"

section \<open>Facts about the store\<close>

lemma bindR_Inl [simp]: "bindR (Inl e) f = carry e f"
  by (simp add: bindR_def)

lemma bindR_Inr [simp]: "bindR (Inr x) f = f x"
  by (simp add: bindR_def)

lemma carry_not_Inr [simp]: "carry e f \<noteq> Inr y"
  by (cases e) (simp_all split: sum.splits)

lemma bindR_eq_Inr: "bindR m f = Inr y \<longleftrightarrow> (\<exists>x. m = Inr x \<and> f x = Inr y)"
  by (cases m) simp_all

lemma final_carry: "final (carry e f) = (case final (Inl e) of None \<Rightarrow> None | Some s \<Rightarrow> final (f s))"
proof (cases e)
  case (Overrun s)
  show ?thesis
  proof (cases "f s")
    case (Inl e')
    with Overrun show ?thesis by simp
  next
    case (Inr t)
    with Overrun show ?thesis by simp
  qed
qed simp_all

lemma final_bindR: "final (bindR m f) = (case final m of None \<Rightarrow> None | Some s \<Rightarrow> final (f s))"
  by (cases m) (simp_all add: final_carry)

lemma final_bindR_Some:
  "final (bindR m f) = Some t \<longleftrightarrow> (\<exists>s. final m = Some s \<and> final (f s) = Some t)"
  by (simp add: final_bindR split: option.splits)

lemma final_Inr_iff: "final r = Some s \<longleftrightarrow> r = Inr s \<or> r = Inl (Overrun s)"
proof (cases r)
  case (Inl e)
  then show ?thesis by (cases e) simp_all
next
  case (Inr t)
  then show ?thesis by simp
qed

lemma lookup_append [simp]: "lookup (h @ [b]) a = (if a = length h then b else lookup h a)"
  by (simp add: lookup_def nth_append)

lemma lookup_update [simp]:
  "lookup (h[a := b]) c = (if c = a \<and> a < length h then b else lookup h c)"
  by (simp add: lookup_def)

lemma lookup_Some_less: "lookup h a = Some xs \<Longrightarrow> a < length h"
  by (simp add: lookup_def split: if_splits)

lemma lookup_length [simp]: "lookup h (length h) = None"
  by (simp add: lookup_def)

lemma to_size_t_id: "0 \<le> i \<Longrightarrow> i \<le> 2 * max_alloc + 1 \<Longrightarrow> to_size_t i = nat i"
  by (simp add: to_size_t_def max_alloc_def)

lemma to_long_long_id: "int n \<le> max_alloc \<Longrightarrow> to_long_long n = int n"
  by (simp add: to_long_long_def max_alloc_def Let_def)

lemma max_alloc_pos: "0 < max_alloc"
  by (simp add: max_alloc_def)

lemma alloc_eq_Inr:
  "alloc n h = Inr r \<longleftrightarrow> int n \<le> max_alloc \<and> r = (length h, h @ [Some (replicate n 0)])"
  by (auto simp: alloc_def)

lemma alloc_eq_Inl: "alloc n h = Inl e \<longleftrightarrow> max_alloc < int n \<and> e = BadAlloc"
  by (auto simp: alloc_def)

lemma free_eq_Inr: "free a h = Inr h' \<longleftrightarrow> (\<exists>xs. lookup h a = Some xs) \<and> h' = h[a := None]"
  by (auto simp: free_def split: option.splits)

lemma release_eq_Inr:
  "release p h = Inr h' \<longleftrightarrow>
     (case p of None \<Rightarrow> h' = h | Some a \<Rightarrow> (\<exists>xs. lookup h a = Some xs) \<and> h' = h[a := None])"
  by (auto simp: release_def free_eq_Inr split: option.splits)

lemma copy_elems_eq_Inr:
  "copy_elems src k dst h = Inr h' \<longleftrightarrow>
     (if k = 0 then h' = h
      else \<exists>s d sb db. src = Some s \<and> dst = Some d \<and> lookup h s = Some sb \<and>
             lookup h d = Some db \<and> k \<le> length sb \<and> k \<le> length db \<and>
             h' = h[d := Some (take k sb @ drop k db)])"
  by (auto simp: copy_elems_def split: option.splits)

lemma write_elem_eq_Inr:
  "write_elem p i x h = Inr h' \<longleftrightarrow>
     (\<exists>a xs. p = Some a \<and> lookup h a = Some xs \<and> 0 \<le> i \<and> nat i < length xs \<and>
        h' = h[a := Some (xs[nat i := x])])"
  by (auto simp: write_elem_def split: option.splits)

lemma read_elem_eq_Inr:
  "read_elem p i h = Inr x \<longleftrightarrow>
     (\<exists>a xs. p = Some a \<and> lookup h a = Some xs \<and> 0 \<le> i \<and> nat i < length xs \<and> x = xs ! nat i)"
  by (auto simp: read_elem_def split: option.splits)

section \<open>Facts about valid containers\<close>

lemma valid_vecD:
  assumes "valid_vec v h"
  shows "- 1 \<le> m_last v" "m_last v < int (m_size v)" "int (m_size v) \<le> max_alloc"
  using assms by (simp_all add: valid_vec_def)

lemma valid_vec_ptr:
  assumes "valid_vec v h" "m_ptr v = Some a"
  shows "\<exists>xs. lookup h a = Some xs \<and> length xs = m_size v"
  using assms by (auto simp: valid_vec_def split: option.splits)

lemma valid_vec_null:
  assumes "valid_vec v h" "m_ptr v = None"
  shows "m_size v = 0" "m_last v = - 1"
  using assms by (auto simp: valid_vec_def)

lemma valid_vec_less:
  assumes "valid_vec v h" "m_ptr v = Some a"
  shows "a < length h"
  using valid_vec_ptr [OF assms] by (auto dest: lookup_Some_less)

lemma valid_vec_frame:
  assumes "valid_vec w h" "\<And>b. m_ptr w = Some b \<Longrightarrow> lookup h' b = lookup h b"
  shows "valid_vec w h'" "contents w h' = contents w h"
  using assms by (auto simp: valid_vec_def contents_def split: option.splits)

section \<open>Resizing and appending, \<^verbatim>\<open>unique_ptr\<close> variant\<close>

lemma resize_valid:
  assumes "valid_vec v h"
  shows "resize n0 v h =
    (let n = (if n0 = 0 then 1 else n0) in
     if max_alloc < int n then Inl BadAlloc
     else if 0 \<le> m_last v \<and> n < m_size v then
       Inl (Overrun (v\<lparr>m_ptr := Some (length h), m_size := n,
                        m_last := min (m_last v) (int n - 1)\<rparr>,
                     (h @ [Some (take n (the (lookup h (the (m_ptr v)))))])[the (m_ptr v) := None]))
     else Inr (v\<lparr>m_ptr := Some (length h), m_size := n\<rparr>,
               (case m_ptr v of None \<Rightarrow> h @ [Some (replicate n 0)]
                | Some a \<Rightarrow> (h @ [Some (if 0 \<le> m_last v then the (lookup h a) @ replicate (n - m_size v) 0 else replicate n 0)])[a := None])))"
proof (cases "m_ptr v")
  case None
  with assms show ?thesis
    by (auto simp: valid_vec_def resize_def Let_def alloc_def release_def)
next
  case (Some a)
  from valid_vec_ptr [OF assms Some] obtain xs where
    xs: "lookup h a = Some xs" "length xs = m_size v" by blast
  have less: "a < length h" using xs(1) by (rule lookup_Some_less)
  note d = valid_vecD [OF assms]
  define n where "n = (if n0 = 0 then 1 else n0)"
  have n: "0 < n" by (simp add: n_def)
  show ?thesis
  proof (cases "max_alloc < int n")
    case True
    then show ?thesis
      by (simp add: resize_def Let_def alloc_def n_def[symmetric])
  next
    case False
    show ?thesis
    proof (cases "0 \<le> m_last v")
      case neg: False
      with False Some xs less n show ?thesis
        by (simp add: resize_def Let_def alloc_def n_def[symmetric] release_def free_def)
    next
      case True
      have ts: "to_size_t (m_last v) = nat (m_last v)"
        using True d by (intro to_size_t_id) auto
      have tl: "to_long_long (n - Suc 0) = int n - 1"
        using False n by (subst to_long_long_id) (auto simp: of_nat_diff)
      define l where "l = (if n \<le> nat (m_last v) then int n - 1 else m_last v)"
      have r: "resize n0 v h =
          bindR (copy_elems (Some a) (m_size v) (Some (length h)) (h @ [Some (replicate n 0)]))
           (\<lambda>h2. bindR (release (Some a) h2)
               (\<lambda>h3. Inr (v\<lparr>m_ptr := Some (length h), m_size := n, m_last := l\<rparr>, h3)))"
        using True False n Some
        by (simp add: resize_def Let_def alloc_def n_def[symmetric] ts tl l_def)
      have pos: "m_size v \<noteq> 0" using True d by auto
      show ?thesis
      proof (cases "n < m_size v")
        case shrink: True
        have l: "l = min (m_last v) (int n - 1)"
          using True by (auto simp: l_def min_def)
        have "resize n0 v h =
            Inl (Overrun (v\<lparr>m_ptr := Some (length h), m_size := n, m_last := l\<rparr>,
                          (h @ [Some (take n xs)])[a := None]))"
          unfolding r using shrink pos xs less
          by (simp add: copy_elems_def release_def free_def list_update_append)
        then show ?thesis
          using False True shrink Some xs l by (simp add: Let_def n_def[symmetric])
      next
        case grow: False
        have l: "l = m_last v" using grow d True by (auto simp: l_def)
        have v: "v\<lparr>m_ptr := Some (length h), m_size := n, m_last := m_last v\<rparr> =
                 v\<lparr>m_ptr := Some (length h), m_size := n\<rparr>" by simp
        have "resize n0 v h =
            Inr (v\<lparr>m_ptr := Some (length h), m_size := n\<rparr>,
                 (h @ [Some (xs @ replicate (n - m_size v) 0)])[a := None])"
          unfolding r l v using grow pos xs less
          by (simp add: copy_elems_def release_def free_def list_update_append)
        then show ?thesis
          using False True grow Some xs by (simp add: Let_def n_def[symmetric])
      qed
    qed
  qed
qed

lemma resize_frame:
  assumes "resize n0 v h = Inr (v', h')" "b < length h" "Some b \<noteq> m_ptr v"
  shows "lookup h' b = lookup h b"
  using assms
  by (auto simp: resize_def Let_def bindR_eq_Inr alloc_eq_Inr release_eq_Inr copy_elems_eq_Inr
      split: if_splits option.splits)

lemma resize_props:
  assumes "valid_vec v h" "resize n0 v h = Inr (v', h')"
  shows "v' = v\<lparr>m_ptr := Some (length h), m_size := max 1 n0\<rparr>"
    and "valid_vec v' h'"
    and "contents v' h' = contents v h"
    and "length h' = Suc (length h)"
    and "\<And>a. m_ptr v = Some a \<Longrightarrow> lookup h' a = None"
    and "0 \<le> m_last v \<Longrightarrow> m_size v \<le> max 1 n0"
  using assms(2) valid_vecD[OF assms(1)] assms(1)
  unfolding resize_valid [OF assms(1)]
  by (auto simp: Let_def max_def valid_vec_def contents_def split: if_splits option.splits dest: lookup_Some_less)

lemma take_update_snoc:
  assumes "n < length xs"
  shows "take (Suc n) (xs[n := x]) = take n xs @ [x]"
  using assms by (simp add: take_Suc_conv_app_nth)

lemma insert_step:
  assumes "valid_vec v h" "m_last v + 1 < int (m_size v)"
  shows "\<exists>h'. write_elem (m_ptr v) (m_last v + 1) x h = Inr h' \<and>
           valid_vec (v\<lparr>m_last := m_last v + 1\<rparr>) h' \<and>
           contents (v\<lparr>m_last := m_last v + 1\<rparr>) h' = contents v h @ [x] \<and>
           length h' = length h \<and>
           (\<forall>b. Some b \<noteq> m_ptr v \<longrightarrow> lookup h' b = lookup h b)"
proof -
  from assms obtain a where a: "m_ptr v = Some a"
    by (cases "m_ptr v") (auto simp: valid_vec_def)
  from valid_vec_ptr [OF assms(1) a] obtain xs where
    xs: "lookup h a = Some xs" "length xs = m_size v" by blast
  have l: "- 1 \<le> m_last v" using assms(1) by (rule valid_vecD)
  define n where "n = nat (m_last v + 1)"
  have n: "n < length xs" "nat (m_last v + 1 + 1) = Suc n" "0 \<le> m_last v + 1"
    using l assms(2) xs by (simp_all add: n_def)
  have w: "write_elem (m_ptr v) (m_last v + 1) x h = Inr (h[a := Some (xs[n := x])])"
    using a xs n by (simp add: write_elem_def n_def)
  have less: "a < length h" using xs(1) by (rule lookup_Some_less)
  show ?thesis
    unfolding w
    using a xs n less l assms valid_vecD(3)[OF assms(1)]
    by (auto simp: valid_vec_def contents_def take_update_snoc n_def[symmetric])
qed

lemma push_back_room:
  assumes "valid_vec v h" "m_last v + 1 < int (m_size v)"
  shows "push_back x v h =
           bindR (write_elem (m_ptr v) (m_last v + 1) x h) (\<lambda>h'. Inr (v\<lparr>m_last := m_last v + 1\<rparr>, h'))"
proof -
  have l: "- 1 \<le> m_last v" "int (m_size v) \<le> max_alloc"
    using assms(1) by (simp_all add: valid_vecD)
  then have "to_size_t (m_last v + 1) = nat (m_last v + 1)"
    using assms(2) max_alloc_pos by (intro to_size_t_id) auto
  then show ?thesis
    using assms(2) l by (auto simp: push_back_def Let_def)
qed

lemma push_back_full:
  assumes "valid_vec v h" "m_last v + 1 = int (m_size v)"
  shows "push_back x v h =
           bindR (resize (2 * m_size v + 1) v h) (\<lambda>(v1, h1).
             bindR (write_elem (m_ptr v1) (m_last v1 + 1) x h1) (\<lambda>h'.
               Inr (v1\<lparr>m_last := m_last v1 + 1\<rparr>, h')))"
proof -
  have l: "- 1 \<le> m_last v" "int (m_size v) \<le> max_alloc"
    using assms(1) by (simp_all add: valid_vecD)
  have a: "to_size_t (m_last v + 1) = m_size v"
    using assms(2) l by (simp add: to_size_t_id)
  have b: "to_size_t (int (m_size v) * 2 + 1) = 2 * m_size v + 1"
    using l by (simp add: to_size_t_id nat_add_distrib nat_mult_distrib)
  show ?thesis
  proof (cases "resize (2 * m_size v + 1) v h")
    case (Inl e)
    with l have "e = BadAlloc"
      unfolding resize_valid [OF assms(1)] by (auto simp: Let_def split: if_splits)
    with Inl show ?thesis by (simp add: push_back_def a b resize_geometric_def)
  next
    case (Inr r)
    obtain v1 h1 where r: "r = (v1, h1)" by (cases r)
    note p = resize_props [OF assms(1) Inr [unfolded r]]
    have v1: "m_last v1 = m_last v" "m_size v1 = 2 * m_size v + 1"
      using p(1) by simp_all
    have "to_size_t (m_last v1 + 1) = m_size v"
      using a v1 by simp
    then show ?thesis
      using Inr r v1 by (simp add: push_back_def a b resize_geometric_def Let_def)
  qed
qed

lemma push_back_props:
  assumes "valid_vec v h" "push_back x v h = Inr (v', h')"
  shows "m_last v' = m_last v + 1"
    and "m_size v' = (if m_last v + 1 = int (m_size v) then 2 * m_size v + 1 else m_size v)"
    and "valid_vec v' h'"
    and "contents v' h' = contents v h @ [x]"
    and "m_name v' = m_name v"
proof -
  have l: "m_last v < int (m_size v)" using assms(1) by (rule valid_vecD)
  have "m_last v' = m_last v + 1 \<and>
        m_size v' = (if m_last v + 1 = int (m_size v) then 2 * m_size v + 1 else m_size v) \<and>
        valid_vec v' h' \<and> contents v' h' = contents v h @ [x] \<and> m_name v' = m_name v"
  proof (cases "m_last v + 1 = int (m_size v)")
    case True
    from assms(2) obtain v1 h1 where
      r: "resize (2 * m_size v + 1) v h = Inr (v1, h1)"
      unfolding push_back_full [OF assms(1) True] by (auto simp: bindR_eq_Inr)
    note p = resize_props [OF assms(1) r]
    have room: "m_last v1 + 1 < int (m_size v1)" using p(1) True by simp
    from insert_step [OF p(2) room, of x] assms(2) p(1) p(3) True
    show ?thesis
      unfolding push_back_full [OF assms(1) True] r by auto
  next
    case False
    with l have room: "m_last v + 1 < int (m_size v)" by simp
    from insert_step [OF assms(1) room, of x] assms(2) False
    show ?thesis
      unfolding push_back_room [OF assms(1) room] by auto
  qed
  then show "m_last v' = m_last v + 1"
    and "m_size v' = (if m_last v + 1 = int (m_size v) then 2 * m_size v + 1 else m_size v)"
    and "valid_vec v' h'"
    and "contents v' h' = contents v h @ [x]"
    and "m_name v' = m_name v"
    by simp_all
qed

lemma push_back_fault:
  assumes "valid_vec v h" "push_back x v h = Inl e"
  shows "e = BadAlloc \<and> m_last v + 1 = int (m_size v) \<and> max_alloc < 2 * int (m_size v) + 1"
proof (cases "m_last v + 1 = int (m_size v)")
  case True
  show ?thesis
  proof (cases "resize (2 * m_size v + 1) v h")
    case (Inl e')
    with True valid_vecD [OF assms(1)]
    have e': "e' = BadAlloc" "max_alloc < 2 * int (m_size v) + 1"
      unfolding resize_valid [OF assms(1)] by (auto simp: Let_def split: if_splits)
    from assms(2) have "e = BadAlloc"
      unfolding push_back_full [OF assms(1) True] Inl e'(1) by simp
    with e'(2) True show ?thesis by simp
  next
    case (Inr r)
    obtain v1 h1 where r: "r = (v1, h1)" by (cases r)
    note p = resize_props [OF assms(1) Inr [unfolded r]]
    have room: "m_last v1 + 1 < int (m_size v1)" using p(1) True by simp
    from insert_step [OF p(2) room, of x] assms(2)
    show ?thesis
      unfolding push_back_full [OF assms(1) True] Inr r by auto
  qed
next
  case False
  with valid_vecD(2) [OF assms(1)] have room: "m_last v + 1 < int (m_size v)" by simp
  from insert_step [OF assms(1) room, of x] assms(2)
  show ?thesis
    unfolding push_back_room [OF assms(1) room] by auto
qed

lemma push_back_total:
  assumes "valid_vec v h" "m_last v + 1 < int (m_size v) \<or> 2 * int (m_size v) + 1 \<le> max_alloc"
  shows "\<exists>v' h'. push_back x v h = Inr (v', h')"
proof (cases "push_back x v h")
  case (Inl e)
  from push_back_fault [OF assms(1) Inl] assms(2) show ?thesis by simp
next
  case (Inr r)
  then show ?thesis by (cases r) simp
qed

lemma push_back_frame:
  assumes "push_back x v h = Inr (v', h')" "b < length h" "Some b \<noteq> m_ptr v"
  shows "lookup h' b = lookup h b"
proof -
  from assms(1) obtain v1 h1 where
    s1: "(if m_size v = to_size_t (m_last v + 1) \<or> m_size v = 0 then resize_geometric v h
          else Inr (v, h)) = Inr (v1, h1)"
    and s2: "(if to_size_t (m_last v1 + 1) < m_size v1 then
                let v2 = v1\<lparr>m_last := m_last v1 + 1\<rparr>
                in bindR (write_elem (m_ptr v2) (m_last v2) x h1) (\<lambda>h2. Inr (v2, h2))
              else Inr (v1, h1)) = Inr (v', h')"
    by (auto simp: push_back_def bindR_eq_Inr)
  have f1: "lookup h1 b = lookup h b \<and> (m_ptr v1 = m_ptr v \<or> m_ptr v1 = Some (length h))"
    using s1 assms(2,3)
    by (auto simp: resize_geometric_def resize_frame split: if_splits
        simp: resize_def Let_def bindR_eq_Inr alloc_eq_Inr)
  have "lookup h' b = lookup h1 b"
    using s2 f1 assms(2,3)
    by (auto simp: bindR_eq_Inr write_elem_eq_Inr Let_def split: if_splits)
  with f1 show ?thesis by simp
qed

section \<open>Growth on append\<close>

lemma push_back_all_props:
  assumes "valid_vec v h" "push_back_all xs v h = Inr (v', h')"
  shows "valid_vec v' h' \<and> occupied v' = occupied v + int (length xs) \<and>
         contents v' h' = contents v h @ xs \<and> m_size v \<le> m_size v'"
  using assms
proof (induction xs arbitrary: v h)
  case Nil
  then show ?case by simp
next
  case (Cons x xs)
  from Cons.prems(2) obtain v1 h1 where
    s: "push_back x v h = Inr (v1, h1)" and r: "push_back_all xs v1 h1 = Inr (v', h')"
    by (auto split: sum.splits)
  note p = push_back_props [OF Cons.prems(1) s]
  from Cons.IH [OF p(3) r] p(1,2,4) show ?case
    by (auto simp: occupied_def split: if_splits)
qed

lemma initSJCVector_props:
  assumes "initSJCVector c nm h = Inr (v, h')"
  shows "v = \<lparr>m_ptr = Some (length h), m_size = c, m_first = Some 0, m_last = - 1, m_name = nm\<rparr>"
    and "h' = h @ [Some (replicate c 0)]"
    and "valid_vec v h'"
    and "contents v h' = []"
    and "int c \<le> max_alloc"
  using assms
  by (auto simp: initSJCVector_def bindR_eq_Inr alloc_eq_Inr emptyVec_def valid_vec_def
      contents_def)

lemma initSJCVector_total:
  assumes "int c \<le> max_alloc"
  shows "\<exists>v h'. initSJCVector c nm h = Inr (v, h')"
  using assms by (simp add: initSJCVector_def alloc_def)

lemma push_back_all_total:
  assumes "valid_vec v h" "2 * (occupied v + int (length xs)) - 1 \<le> max_alloc"
  shows "\<exists>v' h'. push_back_all xs v h = Inr (v', h')"
  using assms
proof (induction xs arbitrary: v h)
  case Nil
  then show ?case by simp
next
  case (Cons x xs)
  have "m_last v + 1 < int (m_size v) \<or> 2 * int (m_size v) + 1 \<le> max_alloc"
    using Cons.prems(2) valid_vecD [OF Cons.prems(1)] by (auto simp: occupied_def)
  from push_back_total [OF Cons.prems(1) this] obtain v1 h1 where
    s: "push_back x v h = Inr (v1, h1)" by blast
  note p = push_back_props [OF Cons.prems(1) s]
  have "2 * (occupied v1 + int (length xs)) - 1 \<le> max_alloc"
    using Cons.prems(2) p(1) by (simp add: occupied_def)
  from Cons.IH [OF p(3) this] s show ?case by simp
qed

text \<open>
  C1.  In the \<^verbatim>\<open>unique_ptr\<close> variant, \<^verbatim>\<open>push_back\<close> on a valid container grows the capacity
  exactly when the container is full (occupied count equal to capacity, which includes
  capacity 0), and then to \<open>2 * capacity + 1\<close>; otherwise the capacity stays, so growth
  occurs only when the occupied count would exceed the prior capacity.  After \<open>k\<close> appends
  to a freshly constructed container the occupied count is \<open>k\<close>, the contents are the
  appended values in order and the capacity is at least \<open>k\<close>; the appends all return as
  long as no request exceeds what an allocation can give.
\<close>

theorem push_back_growth:
  fixes h h0 :: "'a::zero heap"
  shows "(valid_vec v h \<and> push_back x v h = Inr (v', h') \<longrightarrow>
            occupied v' = occupied v + 1 \<and>
            m_size v' = (if occupied v = int (m_size v) \<or> m_size v = 0
                         then 2 * m_size v + 1 else m_size v) \<and>
            (m_size v' \<noteq> m_size v \<longrightarrow> int (m_size v) < occupied v + 1)) \<and>
         (SJCVector_size c h0 = Inr (v0, h1) \<and> push_back_all xs v0 h1 = Inr (vk, hk) \<longrightarrow>
            occupied vk = int (length xs) \<and> contents vk hk = xs \<and> length xs \<le> m_size vk) \<and>
         (int c \<le> max_alloc \<and> 2 * int (length xs) - 1 \<le> max_alloc \<longrightarrow>
            (\<exists>v0 h1 vk hk. SJCVector_size c h0 = Inr (v0, h1) \<and>
               push_back_all xs v0 h1 = Inr (vk, hk)))"
proof (intro conjI impI)
  assume a: "valid_vec v h \<and> push_back x v h = Inr (v', h')"
  then have v: "valid_vec v h" and s: "push_back x v h = Inr (v', h')" by simp_all
  note p = push_back_props [OF v s]
  have z: "m_size v = 0 \<Longrightarrow> m_last v + 1 = int (m_size v)"
    using valid_vecD [OF v] by simp
  show "occupied v' = occupied v + 1" using p(1) by (simp add: occupied_def)
  show "m_size v' = (if occupied v = int (m_size v) \<or> m_size v = 0
                         then 2 * m_size v + 1 else m_size v)"
    using p(2) z by (auto simp: occupied_def)
  show "m_size v' \<noteq> m_size v \<Longrightarrow> int (m_size v) < occupied v + 1"
    using p(2) by (auto simp: occupied_def split: if_splits)
next
  assume a: "SJCVector_size c h0 = Inr (v0, h1) \<and> push_back_all xs v0 h1 = Inr (vk, hk)"
  then have i: "initSJCVector c [] h0 = Inr (v0, h1)"
    and r: "push_back_all xs v0 h1 = Inr (vk, hk)"
    by (simp_all add: SJCVector_size_def)
  note p = initSJCVector_props [OF i]
  have o: "occupied v0 = 0" using p(1) by (simp add: occupied_def)
  from push_back_all_props [OF p(3) r] p(4) o
  have k: "valid_vec vk hk" "occupied vk = int (length xs)" "contents vk hk = xs" by simp_all
  show "occupied vk = int (length xs)" by fact
  show "contents vk hk = xs" by fact
  show "length xs \<le> m_size vk"
    using k(2) valid_vecD(2) [OF k(1)] by (simp add: occupied_def)
next
  assume a: "int c \<le> max_alloc \<and> 2 * int (length xs) - 1 \<le> max_alloc"
  then obtain v0 h1 where i: "initSJCVector c [] h0 = Inr (v0, h1)"
    using initSJCVector_total [of c "[]" h0] by blast
  note p = initSJCVector_props [OF i]
  have "2 * (occupied v0 + int (length xs)) - 1 \<le> max_alloc"
    using a p(1) by (simp add: occupied_def)
  from push_back_all_total [OF p(3) this] i
  show "\<exists>v0 h1 vk hk. SJCVector_size c h0 = Inr (v0, h1) \<and>
               push_back_all xs v0 h1 = Inr (vk, hk)"
    by (auto simp: SJCVector_size_def)
qed

theorem push_back_growth_witness:
  "valid_vec \<lparr>m_ptr = Some 0, m_size = 1, m_first = Some 0, m_last = 0, m_name = ''nigel''\<rparr>
     [Some [3::int]] \<and>
   push_back 56 \<lparr>m_ptr = Some 0, m_size = 1, m_first = Some 0, m_last = 0, m_name = ''nigel''\<rparr>
     [Some [3::int]] =
     Inr (\<lparr>m_ptr = Some 1, m_size = 3, m_first = Some 0, m_last = 1, m_name = ''nigel''\<rparr>,
          [None, Some [3, 56, 0]]) \<and>
   occupied \<lparr>m_ptr = Some 1, m_size = 3, m_first = Some 0, m_last = 1, m_name = ''nigel''\<rparr> =
     occupied \<lparr>m_ptr = Some 0, m_size = 1, m_first = Some 0, m_last = 0, m_name = ''nigel''\<rparr> + 1 \<and>
   SJCVector_size 1 ([] :: int heap) =
     Inr (\<lparr>m_ptr = Some 0, m_size = 1, m_first = Some 0, m_last = - 1, m_name = []\<rparr>, [Some [0]]) \<and>
   push_back_all [3, 56, 7, 9]
     \<lparr>m_ptr = Some 0, m_size = 1, m_first = Some 0, m_last = - 1, m_name = []\<rparr> [Some [0::int]] =
     Inr (\<lparr>m_ptr = Some 2, m_size = 7, m_first = Some 0, m_last = 3, m_name = []\<rparr>,
          [None, None, Some [3, 56, 7, 9, 0, 0, 0]]) \<and>
   occupied \<lparr>m_ptr = Some 2, m_size = 7, m_first = Some 0, m_last = 3, m_name = []\<rparr> =
     int (length [3::int, 56, 7, 9]) \<and>
   int 1 \<le> max_alloc \<and> 2 * int (length [3::int, 56, 7, 9]) - 1 \<le> max_alloc"
proof -
  have a: "valid_vec \<lparr>m_ptr = Some 0, m_size = 1, m_first = Some 0, m_last = 0, m_name = ''nigel''\<rparr>
     [Some [3::int]]" by code_simp
  have b: "push_back 56 \<lparr>m_ptr = Some 0, m_size = 1, m_first = Some 0, m_last = 0, m_name = ''nigel''\<rparr>
     [Some [3::int]] =
     Inr (\<lparr>m_ptr = Some 1, m_size = 3, m_first = Some 0, m_last = 1, m_name = ''nigel''\<rparr>,
          [None, Some [3, 56, 0]])" by code_simp
  have c: "SJCVector_size 1 ([] :: int heap) =
     Inr (\<lparr>m_ptr = Some 0, m_size = 1, m_first = Some 0, m_last = - 1, m_name = []\<rparr>, [Some [0]])"
    by code_simp
  have d: "push_back_all [3, 56, 7, 9]
     \<lparr>m_ptr = Some 0, m_size = 1, m_first = Some 0, m_last = - 1, m_name = []\<rparr> [Some [0::int]] =
     Inr (\<lparr>m_ptr = Some 2, m_size = 7, m_first = Some 0, m_last = 3, m_name = []\<rparr>,
          [None, None, Some [3, 56, 7, 9, 0, 0, 0]])" by code_simp
  have e: "int 1 \<le> max_alloc \<and> 2 * int (length [3::int, 56, 7, 9]) - 1 \<le> max_alloc"
    by (simp add: max_alloc_def)
  note t = push_back_growth [where h = "[Some [3::int]]" and x = 56 and c = 1 and h0 = "[]"
      and xs = "[3, 56, 7, 9]"]
  from t [THEN conjunct1, rule_format, OF conjI, OF a b]
       t [THEN conjunct2, THEN conjunct1, rule_format, OF conjI, OF c d]
  show ?thesis using a b c d e by simp
qed

section \<open>Resizing and appending, raw-pointer variant\<close>

lemma resize_raw_valid:
  assumes "valid_vec v h"
  shows "resize_raw n0 v h =
    (let n = (if n0 = 0 then 1 else n0); k = min (nat (m_last v + 1)) n in
     if max_alloc < int n then Inl BadAlloc
     else Inr (v\<lparr>m_ptr := Some (length h), m_size := n, m_last := int k - 1\<rparr>,
               (case m_ptr v of None \<Rightarrow> h @ [Some (replicate n 0)]
                | Some a \<Rightarrow> (h @ [Some (take k (the (lookup h a)) @ replicate (n - k) 0)])[a := None])))"
proof (cases "m_ptr v")
  case None
  with assms show ?thesis
    by (auto simp: valid_vec_def resize_raw_def Let_def alloc_def release_def)
next
  case (Some a)
  from valid_vec_ptr [OF assms Some] obtain xs where
    xs: "lookup h a = Some xs" "length xs = m_size v" by blast
  have less: "a < length h" using xs(1) by (rule lookup_Some_less)
  note d = valid_vecD [OF assms]
  define n where "n = (if n0 = 0 then 1 else n0)"
  have n: "0 < n" by (simp add: n_def)
  show ?thesis
  proof (cases "max_alloc < int n")
    case True
    then show ?thesis
      by (simp add: resize_raw_def Let_def alloc_def n_def[symmetric])
  next
    case False
    show ?thesis
    proof (cases "0 \<le> m_last v")
      case neg: False
      with d have "m_last v = - 1" by simp
      with False Some xs less n show ?thesis
        by (simp add: resize_raw_def Let_def alloc_def n_def[symmetric] release_def free_def)
    next
      case True
      have ts: "to_size_t (m_last v) = nat (m_last v)"
        using True d by (intro to_size_t_id) auto
      define l where "l = (if n \<le> nat (m_last v) then int n - 1 else m_last v)"
      have tl: "to_long_long (n - Suc 0) = int n - 1"
        using False n by (subst to_long_long_id) (auto simp: of_nat_diff)
      have k: "nat (l + 1) = min (nat (m_last v + 1)) n" "0 \<le> l + 1"
        "l = int (min (nat (m_last v + 1)) n) - 1"
        using True n by (auto simp: l_def min_def)
      have le: "nat (l + 1) \<le> length xs" "nat (l + 1) \<le> n"
        using k(1) d xs(2) by auto
      have "resize_raw n0 v h =
          bindR (if l + 1 < 0 then Inl OutOfBounds
                 else copy_elems (Some a) (nat (l + 1)) (Some (length h)) (h @ [Some (replicate n 0)]))
           (\<lambda>h2. bindR (release (Some a) h2)
               (\<lambda>h3. Inr (v\<lparr>m_ptr := Some (length h), m_size := n, m_last := l\<rparr>, h3)))"
        using True False n Some
        by (simp add: resize_raw_def Let_def alloc_def n_def[symmetric] ts tl l_def)
      also have "\<dots> = Inr (v\<lparr>m_ptr := Some (length h), m_size := n, m_last := l\<rparr>,
            (h @ [Some (take (nat (l + 1)) xs @ replicate (n - nat (l + 1)) 0)])[a := None])"
        using k(2) le xs less
        by (auto simp: copy_elems_def release_def free_def list_update_append nth_append)
      finally show ?thesis
        using False Some xs k by (simp add: Let_def n_def[symmetric])
    qed
  qed
qed

lemma copy_elems_lookup:
  assumes "copy_elems src k dst h = Inr h'" "Some b \<noteq> dst"
  shows "lookup h' b = lookup h b"
  using assms by (auto simp: copy_elems_eq_Inr split: if_splits)

lemma release_lookup:
  assumes "release p h = Inr h'" "Some b \<noteq> p"
  shows "lookup h' b = lookup h b"
  using assms by (auto simp: release_eq_Inr split: option.splits)

lemma write_elem_lookup:
  assumes "write_elem p i x h = Inr h'" "Some b \<noteq> p"
  shows "lookup h' b = lookup h b"
  using assms by (auto simp: write_elem_eq_Inr split: if_splits)

lemma resize_raw_frame:
  assumes "resize_raw n0 v h = Inr (v', h')" "b < length h" "Some b \<noteq> m_ptr v"
  shows "lookup h' b = lookup h b"
proof -
  define n where "n = (if n0 = 0 then 1 else n0)"
  define h1 :: "'a heap" where "h1 = h @ [Some (replicate n 0)]"
  have b1: "lookup h1 b = lookup h b" "Some b \<noteq> Some (length h)"
    using assms(2) by (simp_all add: h1_def)
  from assms(1) obtain h2 where
    c: "h2 = h1 \<or> (\<exists>k. copy_elems (m_ptr v) k (Some (length h)) h1 = Inr h2)"
    and r: "release (m_ptr v) h2 = Inr h'"
    unfolding resize_raw_def Let_def n_def [symmetric]
    by (simp add: bindR_eq_Inr alloc_eq_Inr h1_def [symmetric] split: if_splits) blast+
  from c b1 have "lookup h2 b = lookup h b"
    by (auto dest: copy_elems_lookup)
  with release_lookup [OF r assms(3)] show ?thesis by simp
qed

lemma resize_raw_props:
  assumes "valid_vec v h" "resize_raw n0 v h = Inr (v', h')"
  shows "v' = v\<lparr>m_ptr := Some (length h), m_size := max 1 n0,
                 m_last := min (m_last v) (int (max 1 n0) - 1)\<rparr>"
    and "valid_vec v' h'"
    and "contents v' h' = take (max 1 n0) (contents v h)"
    and "length h' = Suc (length h)"
    and "\<And>a. m_ptr v = Some a \<Longrightarrow> lookup h' a = None"
proof -
  note d = valid_vecD [OF assms(1)]
  define n where "n = max 1 n0"
  define k where "k = min (nat (m_last v + 1)) n"
  have m: "(if n0 = 0 then 1 else n0) = n" by (simp add: max_def n_def)
  have l: "int k - 1 = min (m_last v) (int n - 1)"
    using d by (auto simp: min_def k_def)
  have kn: "k \<le> n" "nat (int k - 1 + 1) = k" "int k - 1 < int n" "- 1 \<le> int k - 1"
    by (simp_all add: k_def)
  from assms(2) have ok: "int n \<le> max_alloc"
    and v': "v' = v\<lparr>m_ptr := Some (length h), m_size := n, m_last := int k - 1\<rparr>"
    and h': "h' = (case m_ptr v of None \<Rightarrow> h @ [Some (replicate n 0)]
                | Some a \<Rightarrow> (h @ [Some (take k (the (lookup h a)) @ replicate (n - k) 0)])[a := None])"
    unfolding resize_raw_valid [OF assms(1)] m Let_def k_def [symmetric]
    by (simp_all split: if_splits)
  show "v' = v\<lparr>m_ptr := Some (length h), m_size := max 1 n0,
                 m_last := min (m_last v) (int (max 1 n0) - 1)\<rparr>"
    using v' l by (simp add: n_def)
  show "length h' = Suc (length h)" using h' by (simp split: option.splits)
  show "\<And>a. m_ptr v = Some a \<Longrightarrow> lookup h' a = None"
    using h' assms(1) by (auto dest: valid_vec_less)
  have c: "valid_vec v' h' \<and> contents v' h' = take n (contents v h)"
  proof (cases "m_ptr v")
    case None
    from valid_vec_null [OF assms(1) None] have "k = 0" by (simp add: k_def)
    with None v' h' ok show ?thesis
      by (simp add: valid_vec_def contents_def)
  next
    case (Some a)
    from valid_vec_ptr [OF assms(1) Some] obtain xs where
      xs: "lookup h a = Some xs" "length xs = m_size v" by blast
    have less: "a < length h" using xs(1) by (rule lookup_Some_less)
    have kx: "k \<le> length xs" using d xs(2) by (simp add: k_def)
    have t: "take n (take (nat (m_last v + 1)) xs) = take k xs"
      by (simp add: k_def min.commute)
    have lk: "lookup h' (length h) = Some (take k xs @ replicate (n - k) 0)"
      using h' Some xs less by simp
    have len: "length (take k xs @ replicate (n - k) (0::'a)) = n"
      using kx kn(1) by simp
    have "valid_vec v' h'"
      using lk len ok kn(3,4) by (simp add: valid_vec_def v')
    moreover have "contents v' h' = take k xs"
      using lk kx kn(2) by (simp add: contents_def v')
    moreover have "contents v h = take (nat (m_last v + 1)) xs"
      using Some xs by (simp add: contents_def)
    ultimately show ?thesis using t by simp
  qed
  then show "valid_vec v' h'" and "contents v' h' = take (max 1 n0) (contents v h)"
    by (simp_all add: n_def)
qed

lemma push_back_raw_room:
  assumes "valid_vec v h" "m_last v + 1 < int (m_size v)"
  shows "push_back_raw x v h =
           bindR (write_elem (m_ptr v) (m_last v + 1) x h) (\<lambda>h'. Inr (v\<lparr>m_last := m_last v + 1\<rparr>, h'))"
proof -
  have l: "- 1 \<le> m_last v" "int (m_size v) \<le> max_alloc"
    using assms(1) by (simp_all add: valid_vecD)
  then have "to_size_t (m_last v + 1) = nat (m_last v + 1)"
    using assms(2) max_alloc_pos by (intro to_size_t_id) auto
  then show ?thesis
    using assms(2) l by (auto simp: push_back_raw_def Let_def)
qed

lemma push_back_raw_full:
  assumes "valid_vec v h" "m_last v + 1 = int (m_size v)"
  shows "push_back_raw x v h =
           bindR (resize_raw (2 * m_size v + 1) v h) (\<lambda>(v1, h1).
             bindR (write_elem (m_ptr v1) (m_last v1 + 1) x h1) (\<lambda>h'.
               Inr (v1\<lparr>m_last := m_last v1 + 1\<rparr>, h')))"
proof -
  have l: "- 1 \<le> m_last v" "int (m_size v) \<le> max_alloc"
    using assms(1) by (simp_all add: valid_vecD)
  have a: "to_size_t (m_last v + 1) = m_size v"
    using assms(2) l by (simp add: to_size_t_id)
  have b: "to_size_t (int (m_size v) * 2 + 1) = 2 * m_size v + 1"
    using l by (simp add: to_size_t_id nat_add_distrib nat_mult_distrib)
  show ?thesis
  proof (cases "resize_raw (2 * m_size v + 1) v h")
    case (Inl e)
    then have "e = BadAlloc"
      unfolding resize_raw_valid [OF assms(1)] by (auto simp: Let_def split: if_splits)
    with Inl show ?thesis by (simp add: push_back_raw_def a b resize_geometric_raw_def)
  next
    case (Inr r)
    obtain v1 h1 where r: "r = (v1, h1)" by (cases r)
    note p = resize_raw_props [OF assms(1) Inr [unfolded r]]
    have v1: "m_last v1 = m_last v" "m_size v1 = 2 * m_size v + 1"
      using p(1) assms(2) by simp_all
    have "to_size_t (m_last v1 + 1) = m_size v"
      using a v1 by simp
    then show ?thesis
      using Inr r v1 by (simp add: push_back_raw_def a b resize_geometric_raw_def Let_def)
  qed
qed

lemma resize_raw_grow:
  assumes "valid_vec v h" "m_last v + 1 = int (m_size v)"
    "resize_raw (2 * m_size v + 1) v h = Inr (v1, h1)"
  shows "m_last v1 = m_last v" "m_size v1 = 2 * m_size v + 1" "valid_vec v1 h1"
    "contents v1 h1 = contents v h" "m_name v1 = m_name v"
proof -
  note p = resize_raw_props [OF assms(1,3)]
  show "m_last v1 = m_last v" "m_size v1 = 2 * m_size v + 1" "m_name v1 = m_name v"
    using p(1) assms(2) by simp_all
  show "valid_vec v1 h1" by (rule p(2))
  have "length (contents v h) \<le> m_size v"
    using assms(1) by (auto simp: contents_def valid_vec_def split: option.splits)
  then show "contents v1 h1 = contents v h"
    using p(3) by simp
qed

lemma push_back_raw_props:
  assumes "valid_vec v h" "push_back_raw x v h = Inr (v', h')"
  shows "m_last v' = m_last v + 1"
    and "m_size v' = (if m_last v + 1 = int (m_size v) then 2 * m_size v + 1 else m_size v)"
    and "valid_vec v' h'"
    and "contents v' h' = contents v h @ [x]"
    and "m_name v' = m_name v"
proof -
  have l: "m_last v < int (m_size v)" using assms(1) by (rule valid_vecD)
  have "m_last v' = m_last v + 1 \<and>
        m_size v' = (if m_last v + 1 = int (m_size v) then 2 * m_size v + 1 else m_size v) \<and>
        valid_vec v' h' \<and> contents v' h' = contents v h @ [x] \<and> m_name v' = m_name v"
  proof (cases "m_last v + 1 = int (m_size v)")
    case True
    from assms(2) obtain v1 h1 where
      r: "resize_raw (2 * m_size v + 1) v h = Inr (v1, h1)"
      unfolding push_back_raw_full [OF assms(1) True] by (auto simp: bindR_eq_Inr)
    note p = resize_raw_grow [OF assms(1) True r]
    have room: "m_last v1 + 1 < int (m_size v1)" using p(1,2) True by simp
    from insert_step [OF p(3) room, of x] assms(2) p(1,2,4,5) True
    show ?thesis
      unfolding push_back_raw_full [OF assms(1) True] r by auto
  next
    case False
    with l have room: "m_last v + 1 < int (m_size v)" by simp
    from insert_step [OF assms(1) room, of x] assms(2) False
    show ?thesis
      unfolding push_back_raw_room [OF assms(1) room] by auto
  qed
  then show "m_last v' = m_last v + 1"
    and "m_size v' = (if m_last v + 1 = int (m_size v) then 2 * m_size v + 1 else m_size v)"
    and "valid_vec v' h'"
    and "contents v' h' = contents v h @ [x]"
    and "m_name v' = m_name v"
    by simp_all
qed

lemma push_back_raw_fault:
  assumes "valid_vec v h" "push_back_raw x v h = Inl e"
  shows "e = BadAlloc \<and> m_last v + 1 = int (m_size v) \<and> max_alloc < 2 * int (m_size v) + 1"
proof (cases "m_last v + 1 = int (m_size v)")
  case True
  show ?thesis
  proof (cases "resize_raw (2 * m_size v + 1) v h")
    case (Inl e')
    with True valid_vecD [OF assms(1)]
    have e': "e' = BadAlloc" "max_alloc < 2 * int (m_size v) + 1"
      unfolding resize_raw_valid [OF assms(1)] by (auto simp: Let_def split: if_splits)
    from assms(2) have "e = BadAlloc"
      unfolding push_back_raw_full [OF assms(1) True] Inl e'(1) by simp
    with e'(2) True show ?thesis by simp
  next
    case (Inr r)
    obtain v1 h1 where r: "r = (v1, h1)" by (cases r)
    note p = resize_raw_grow [OF assms(1) True Inr [unfolded r]]
    have room: "m_last v1 + 1 < int (m_size v1)" using p(1,2) True by simp
    from insert_step [OF p(3) room, of x] assms(2)
    show ?thesis
      unfolding push_back_raw_full [OF assms(1) True] Inr r by auto
  qed
next
  case False
  with valid_vecD(2) [OF assms(1)] have room: "m_last v + 1 < int (m_size v)" by simp
  from insert_step [OF assms(1) room, of x] assms(2)
  show ?thesis
    unfolding push_back_raw_room [OF assms(1) room] by auto
qed

lemma push_back_raw_frame:
  assumes "push_back_raw x v h = Inr (v', h')" "b < length h" "Some b \<noteq> m_ptr v"
  shows "lookup h' b = lookup h b"
proof -
  from assms(1) obtain v1 h1 where
    s1: "(if m_size v = to_size_t (m_last v + 1) \<or> m_size v = 0 then resize_geometric_raw v h
          else Inr (v, h)) = Inr (v1, h1)"
    and s2: "(if to_size_t (m_last v1 + 1) < m_size v1 then
                let v2 = v1\<lparr>m_last := m_last v1 + 1\<rparr>
                in bindR (write_elem (m_ptr v2) (m_last v2) x h1) (\<lambda>h2. Inr (v2, h2))
              else Inr (v1, h1)) = Inr (v', h')"
    by (auto simp: push_back_raw_def bindR_eq_Inr)
  have p: "m_ptr v1 = m_ptr v \<or> m_ptr v1 = Some (length h)"
    using s1
    by (auto simp: resize_geometric_raw_def resize_raw_def Let_def bindR_eq_Inr alloc_eq_Inr
        split: if_splits)
  have f1: "lookup h1 b = lookup h b"
    using s1 assms(2,3) by (auto simp: resize_geometric_raw_def resize_raw_frame split: if_splits)
  have "Some b \<noteq> m_ptr v1" using p assms(2,3) by auto
  then have "lookup h' b = lookup h1 b"
    using s2 by (auto simp: bindR_eq_Inr Let_def write_elem_lookup split: if_splits)
  with f1 show ?thesis by simp
qed

section \<open>The guard after the growth step\<close>

lemma resize_geometric_props:
  assumes "valid_vec v h" "resize_geometric v h = Inr (v1, h1)"
  shows "m_size v1 = 2 * m_size v + 1" "m_last v1 = m_last v"
proof -
  have b: "to_size_t (int (m_size v) * 2 + 1) = 2 * m_size v + 1"
    using valid_vecD [OF assms(1)] by (simp add: to_size_t_id nat_add_distrib nat_mult_distrib)
  from assms(2) have r: "resize (2 * m_size v + 1) v h = Inr (v1, h1)"
    by (simp add: resize_geometric_def b)
  from resize_props(1) [OF assms(1) r]
  show "m_size v1 = 2 * m_size v + 1" "m_last v1 = m_last v" by simp_all
qed

lemma resize_geometric_raw_props:
  assumes "valid_vec v h" "resize_geometric_raw v h = Inr (v1, h1)"
  shows "m_size v1 = 2 * m_size v + 1" "m_last v1 = m_last v"
proof -
  note d = valid_vecD [OF assms(1)]
  have b: "to_size_t (int (m_size v) * 2 + 1) = 2 * m_size v + 1"
    using d by (simp add: to_size_t_id nat_add_distrib nat_mult_distrib)
  from assms(2) have r: "resize_raw (2 * m_size v + 1) v h = Inr (v1, h1)"
    by (simp add: resize_geometric_raw_def b)
  from resize_raw_props(1) [OF assms(1) r] d
  show "m_size v1 = 2 * m_size v + 1" "m_last v1 = m_last v" by simp_all
qed

text \<open>
  C10.  On a valid container, in both variants: when the growth step \<^verbatim>\<open>resize()\<close> returns,
  the new capacity \<open>2 * capacity + 1\<close> is strictly larger than the occupied count, so the
  guard \<^verbatim>\<open>size_ > last_ + 1\<close> holds and the branch that reports
  \<^verbatim>\<open>push_back fail due to full\<close> is never taken: \<^verbatim>\<open>push_back\<close> either throws because the
  allocation of the growth step failed, or returns with the value stored in the slot after
  the old last one.
\<close>

theorem push_back_never_full:
  fixes h :: "'a::zero heap"
  assumes "valid_vec v h"
  shows "(\<forall>v1 h1. resize_geometric v h = Inr (v1, h1) \<longrightarrow>
            m_size v1 = 2 * m_size v + 1 \<and> occupied v1 < int (m_size v1)) \<and>
         (case push_back x v h of
            Inr (v', h') \<Rightarrow> m_last v' = m_last v + 1 \<and> contents v' h' = contents v h @ [x]
          | Inl e \<Rightarrow> e = BadAlloc \<and> occupied v = int (m_size v) \<and>
                     max_alloc < 2 * int (m_size v) + 1) \<and>
         (\<forall>v1 h1. resize_geometric_raw v h = Inr (v1, h1) \<longrightarrow>
            m_size v1 = 2 * m_size v + 1 \<and> occupied v1 < int (m_size v1)) \<and>
         (case push_back_raw x v h of
            Inr (v', h') \<Rightarrow> m_last v' = m_last v + 1 \<and> contents v' h' = contents v h @ [x]
          | Inl e \<Rightarrow> e = BadAlloc \<and> occupied v = int (m_size v) \<and>
                     max_alloc < 2 * int (m_size v) + 1)"
proof (intro conjI allI impI)
  note d = valid_vecD [OF assms]
  fix v1 and h1 :: "'a heap"
  {
    assume "resize_geometric v h = Inr (v1, h1)"
    note p = resize_geometric_props [OF assms this]
    show "m_size v1 = 2 * m_size v + 1" by (rule p(1))
    show "occupied v1 < int (m_size v1)" using p d by (simp add: occupied_def)
  }
  {
    assume "resize_geometric_raw v h = Inr (v1, h1)"
    note p = resize_geometric_raw_props [OF assms this]
    show "m_size v1 = 2 * m_size v + 1" by (rule p(1))
    show "occupied v1 < int (m_size v1)" using p d by (simp add: occupied_def)
  }
next
  show "case push_back x v h of
            Inr (v', h') \<Rightarrow> m_last v' = m_last v + 1 \<and> contents v' h' = contents v h @ [x]
          | Inl e \<Rightarrow> e = BadAlloc \<and> occupied v = int (m_size v) \<and>
                     max_alloc < 2 * int (m_size v) + 1"
  proof (cases "push_back x v h")
    case (Inl e)
    from push_back_fault [OF assms Inl] Inl show ?thesis by (simp add: occupied_def)
  next
    case (Inr r)
    obtain v' h' where r: "r = (v', h')" by (cases r)
    from push_back_props(1,4) [OF assms Inr [unfolded r]] Inr r show ?thesis by simp
  qed
next
  show "case push_back_raw x v h of
            Inr (v', h') \<Rightarrow> m_last v' = m_last v + 1 \<and> contents v' h' = contents v h @ [x]
          | Inl e \<Rightarrow> e = BadAlloc \<and> occupied v = int (m_size v) \<and>
                     max_alloc < 2 * int (m_size v) + 1"
  proof (cases "push_back_raw x v h")
    case (Inl e)
    from push_back_raw_fault [OF assms Inl] Inl show ?thesis by (simp add: occupied_def)
  next
    case (Inr r)
    obtain v' h' where r: "r = (v', h')" by (cases r)
    from push_back_raw_props(1,4) [OF assms Inr [unfolded r]] Inr r show ?thesis by simp
  qed
qed

theorem push_back_never_full_witness:
  "valid_vec \<lparr>m_ptr = Some 0, m_size = 1, m_first = Some 0, m_last = 0, m_name = ''nigel''\<rparr>
     [Some [3::int]] \<and>
   resize_geometric \<lparr>m_ptr = Some 0, m_size = 1, m_first = Some 0, m_last = 0, m_name = ''nigel''\<rparr>
     [Some [3::int]] =
     Inr (\<lparr>m_ptr = Some 1, m_size = 3, m_first = Some 0, m_last = 0, m_name = ''nigel''\<rparr>,
          [None, Some [3, 0, 0]]) \<and>
   occupied \<lparr>m_ptr = Some 1, m_size = 3, m_first = Some 0, m_last = 0, m_name = ''nigel''\<rparr>
     < int 3 \<and>
   push_back 56 \<lparr>m_ptr = Some 0, m_size = 1, m_first = Some 0, m_last = 0, m_name = ''nigel''\<rparr>
     [Some [3::int]] =
     Inr (\<lparr>m_ptr = Some 1, m_size = 3, m_first = Some 0, m_last = 1, m_name = ''nigel''\<rparr>,
          [None, Some [3, 56, 0]]) \<and>
   push_back_raw 56 \<lparr>m_ptr = Some 0, m_size = 1, m_first = Some 0, m_last = 0, m_name = ''nigel''\<rparr>
     [Some [3::int]] =
     Inr (\<lparr>m_ptr = Some 1, m_size = 3, m_first = Some 0, m_last = 1, m_name = ''nigel''\<rparr>,
          [None, Some [3, 56, 0]]) \<and>
   contents \<lparr>m_ptr = Some 1, m_size = 3, m_first = Some 0, m_last = 1, m_name = ''nigel''\<rparr>
     [None, Some [3::int, 56, 0]] =
   contents \<lparr>m_ptr = Some 0, m_size = 1, m_first = Some 0, m_last = 0, m_name = ''nigel''\<rparr>
     [Some [3::int]] @ [56]"
proof -
  have a: "valid_vec \<lparr>m_ptr = Some 0, m_size = 1, m_first = Some 0, m_last = 0, m_name = ''nigel''\<rparr>
     [Some [3::int]]" by code_simp
  have b: "resize_geometric \<lparr>m_ptr = Some 0, m_size = 1, m_first = Some 0, m_last = 0, m_name = ''nigel''\<rparr>
     [Some [3::int]] =
     Inr (\<lparr>m_ptr = Some 1, m_size = 3, m_first = Some 0, m_last = 0, m_name = ''nigel''\<rparr>,
          [None, Some [3, 0, 0]])" by code_simp
  have c: "push_back 56 \<lparr>m_ptr = Some 0, m_size = 1, m_first = Some 0, m_last = 0, m_name = ''nigel''\<rparr>
     [Some [3::int]] =
     Inr (\<lparr>m_ptr = Some 1, m_size = 3, m_first = Some 0, m_last = 1, m_name = ''nigel''\<rparr>,
          [None, Some [3, 56, 0]])" by code_simp
  have d: "push_back_raw 56 \<lparr>m_ptr = Some 0, m_size = 1, m_first = Some 0, m_last = 0, m_name = ''nigel''\<rparr>
     [Some [3::int]] =
     Inr (\<lparr>m_ptr = Some 1, m_size = 3, m_first = Some 0, m_last = 1, m_name = ''nigel''\<rparr>,
          [None, Some [3, 56, 0]])" by code_simp
  note t = push_back_never_full [OF a, of 56]
  from t [THEN conjunct1, rule_format, OF b] t [THEN conjunct2, THEN conjunct1]
  show ?thesis using a b c d by simp
qed

section \<open>The trace of \<^verbatim>\<open>main\<close>\<close>

text \<open>
  C9, as the specification states it, has a container of capacity 1 with no occupied slot
  grow before the first insert.  It does not: the guard of \<^verbatim>\<open>push_back\<close> asks for a full
  container, and the first append stores 3 in the one slot, the capacity still 1.
\<close>

theorem first_append_grows_counterexample:
  "SJCVector_named ''nigel'' 1 ([] :: int heap) =
     Inr (\<lparr>m_ptr = Some 0, m_size = 1, m_first = Some 0, m_last = - 1, m_name = ''nigel''\<rparr>,
          [Some [0]]) \<and>
   push_back 3 \<lparr>m_ptr = Some 0, m_size = 1, m_first = Some 0, m_last = - 1, m_name = ''nigel''\<rparr>
     [Some [0::int]] =
     Inr (\<lparr>m_ptr = Some 0, m_size = 1, m_first = Some 0, m_last = 0, m_name = ''nigel''\<rparr>,
          [Some [3]]) \<and>
   \<not> m_size \<lparr>m_ptr = Some 0, m_size = 1, m_first = Some 0, m_last = - 1, m_name = ''nigel''\<rparr>
     < m_size \<lparr>m_ptr = Some 0, m_size = 1, m_first = Some 0, m_last = 0, m_name = ''nigel''\<rparr>"
  by code_simp

text \<open>
  C9, amended.  A container that starts empty with capacity 1, after appending 3 and then
  56, has occupied count 2, contents \<open>[3, 56]\<close> and capacity 3: the first append fills the
  only slot without growth, and the second, finding the container full, grows the capacity
  from 1 to \<open>2 * 1 + 1 = 3\<close> before it inserts.
\<close>

theorem main_trace:
  "SJCVector_named ''nigel'' 1 ([] :: int heap) =
     Inr (\<lparr>m_ptr = Some 0, m_size = 1, m_first = Some 0, m_last = - 1, m_name = ''nigel''\<rparr>,
          [Some [0]]) \<and>
   push_back 3 \<lparr>m_ptr = Some 0, m_size = 1, m_first = Some 0, m_last = - 1, m_name = ''nigel''\<rparr>
     [Some [0::int]] =
     Inr (\<lparr>m_ptr = Some 0, m_size = 1, m_first = Some 0, m_last = 0, m_name = ''nigel''\<rparr>,
          [Some [3]]) \<and>
   push_back 56 \<lparr>m_ptr = Some 0, m_size = 1, m_first = Some 0, m_last = 0, m_name = ''nigel''\<rparr>
     [Some [3::int]] =
     Inr (\<lparr>m_ptr = Some 1, m_size = 3, m_first = Some 0, m_last = 1, m_name = ''nigel''\<rparr>,
          [None, Some [3, 56, 0]]) \<and>
   occupied \<lparr>m_ptr = Some 1, m_size = 3, m_first = Some 0, m_last = 1, m_name = ''nigel''\<rparr> = 2 \<and>
   contents \<lparr>m_ptr = Some 1, m_size = 3, m_first = Some 0, m_last = 1, m_name = ''nigel''\<rparr>
     [None, Some [3::int, 56, 0]] = [3, 56] \<and>
   m_size \<lparr>m_ptr = Some 1, m_size = 3, m_first = Some 0, m_last = 1, m_name = ''nigel''\<rparr> =
     2 * 1 + 1"
  by code_simp

section \<open>Shrinking\<close>

lemma resize_shrink_overruns:
  assumes "valid_vec v h" "0 \<le> m_last v" "max 1 n < m_size v"
  shows "\<exists>v' h'. resize n v h = Inl (Overrun (v', h')) \<and> m_size v' = max 1 n \<and>
           m_last v' = min (m_last v) (int (max 1 n) - 1) \<and>
           contents v' h' = take (max 1 n) (contents v h)"
proof -
  from assms(1,2) obtain a where a: "m_ptr v = Some a"
    by (cases "m_ptr v") (auto simp: valid_vec_def)
  from valid_vec_ptr [OF assms(1) a] obtain xs where
    xs: "lookup h a = Some xs" "length xs = m_size v" by blast
  have less: "a < length h" using xs(1) by (rule lookup_Some_less)
  define k where "k = max 1 n"
  define l where "l = min (m_last v) (int k - 1)"
  have ok: "int k \<le> max_alloc"
    using assms(3) valid_vecD(3) [OF assms(1)] unfolding k_def by linarith
  have m: "(if n = 0 then 1 else n) = k" by (simp add: max_def k_def)
  have r: "resize n v h =
      Inl (Overrun (v\<lparr>m_ptr := Some (length h), m_size := k, m_last := l\<rparr>,
                    (h @ [Some (take k xs)])[a := None]))"
    unfolding resize_valid [OF assms(1)] m Let_def l_def
    using ok assms(2,3) a xs by (simp add: k_def)
  have lk: "lookup ((h @ [Some (take k xs)])[a := None]) (length h) = Some (take k xs)"
    using less by simp
  have nl: "nat (l + 1) = min k (nat (m_last v + 1))"
    using assms(2) by (auto simp: l_def min_def)
  have t: "take (nat (l + 1)) (take k xs) = take k (take (nat (m_last v + 1)) xs)"
    unfolding nl by (simp add: min.commute min.left_commute)
  have "contents (v\<lparr>m_ptr := Some (length h), m_size := k, m_last := l\<rparr>)
          ((h @ [Some (take k xs)])[a := None]) = take k (contents v h)"
    using lk t a xs by (simp add: contents_def)
  with r show ?thesis by (simp add: k_def l_def)
qed

lemma resize_raw_shrinks:
  assumes "valid_vec v h" "0 < n" "int n < occupied v"
  shows "\<exists>v' h'. resize_raw n v h = Inr (v', h') \<and> occupied v' = int n \<and>
           m_last v' = int n - 1 \<and> contents v' h' = take n (contents v h) \<and> m_size v' = n"
proof -
  note d = valid_vecD [OF assms(1)]
  have m: "(if n = 0 then 1 else n) = n" "max 1 n = n" using assms(2) by simp_all
  have ok: "int n \<le> max_alloc" using assms(3) d by (simp add: occupied_def)
  then obtain v' h' where r: "resize_raw n v h = Inr (v', h')"
    unfolding resize_raw_valid [OF assms(1)] by (simp add: Let_def m)
  note p = resize_raw_props [OF assms(1) r, unfolded m]
  have "m_last v' = int n - 1" using p(1) assms(3) by (simp add: occupied_def)
  with r p(1,3) show ?thesis by (simp add: occupied_def)
qed

text \<open>
  C3.  A container with capacity 3 and contents \<open>[1, 2, 3]\<close> is asked to \<^verbatim>\<open>resize(2)\<close>.  The
  raw-pointer variant copies \<^verbatim>\<open>last_ + 1\<close> elements after it has clamped \<^verbatim>\<open>last_\<close> and
  leaves \<open>[1, 2]\<close> with occupied count 2.  The \<^verbatim>\<open>unique_ptr\<close> variant copies \<^verbatim>\<open>size_\<close>
  elements, the old capacity, into the new array of 2 and writes the third past its end:
  the call has undefined behaviour, whatever the members are afterwards.
\<close>

theorem resize_shrink_trace:
  "push_back_all [1, 2, 3]
     \<lparr>m_ptr = Some 0, m_size = 3, m_first = Some 0, m_last = - 1, m_name = ''kelly''\<rparr>
     [Some [0::int, 0, 0]] =
     Inr (\<lparr>m_ptr = Some 0, m_size = 3, m_first = Some 0, m_last = 2, m_name = ''kelly''\<rparr>,
          [Some [1, 2, 3]]) \<and>
   resize 2 \<lparr>m_ptr = Some 0, m_size = 3, m_first = Some 0, m_last = 2, m_name = ''kelly''\<rparr>
     [Some [1::int, 2, 3]] =
     Inl (Overrun
       (\<lparr>m_ptr = Some 1, m_size = 2, m_first = Some 0, m_last = 1, m_name = ''kelly''\<rparr>,
        [None, Some [1, 2]])) \<and>
   resize_raw 2 \<lparr>m_ptr = Some 0, m_size = 3, m_first = Some 0, m_last = 2, m_name = ''kelly''\<rparr>
     [Some [1::int, 2, 3]] =
     Inr (\<lparr>m_ptr = Some 1, m_size = 2, m_first = Some 0, m_last = 1, m_name = ''kelly''\<rparr>,
          [None, Some [1, 2]])"
  by code_simp

section \<open>Construction and copying\<close>

lemma copy_ctor_valid:
  assumes "valid_vec rhs h"
  shows "copy_ctor rhs h =
           Inr (\<lparr>m_ptr = Some (length h), m_size = m_size rhs, m_first = Some 0,
                 m_last = m_last rhs, m_name = ''copy''\<rparr>,
                h @ [Some (array_of rhs h)])"
proof (cases "m_ptr rhs")
  case None
  with assms show ?thesis
    by (simp add: copy_ctor_def initSJCVector_def alloc_def valid_vec_def copy_elems_def
        rename_def array_of_def)
next
  case (Some a)
  from valid_vec_ptr [OF assms Some] obtain xs where
    xs: "lookup h a = Some xs" "length xs = m_size rhs" by blast
  have less: "a < length h" using xs(1) by (rule lookup_Some_less)
  have ok: "\<not> max_alloc < int (m_size rhs)" using valid_vecD(3) [OF assms] by simp
  show ?thesis
    using Some xs less ok
    by (auto simp: copy_ctor_def initSJCVector_def alloc_def copy_elems_def rename_def
        array_of_def)
qed

lemma copy_ctor_raw_valid:
  assumes "valid_vec rhs h"
  shows "copy_ctor_raw rhs h =
           Inr (\<lparr>m_ptr = Some (length h), m_size = nat (m_last rhs + 1), m_first = None,
                 m_last = m_last rhs, m_name = ''copy''\<rparr>,
                h @ [Some (contents rhs h)])"
proof -
  note d = valid_vecD [OF assms]
  define k where "k = nat (m_last rhs + 1)"
  have k: "\<not> m_last rhs + 1 < 0" "\<not> max_alloc < int k" "to_size_t (m_last rhs + 1) = k"
    using d by (simp_all add: k_def to_size_t_id)
  show ?thesis
  proof (cases "m_ptr rhs")
    case None
    from valid_vec_null [OF assms None] have "m_last rhs = - 1" "k = 0" by (simp_all add: k_def)
    with None k show ?thesis
      by (simp add: copy_ctor_raw_def alloc_def copy_elems_def rename_def contents_def Let_def)
  next
    case (Some a)
    from valid_vec_ptr [OF assms Some] obtain xs where
      xs: "lookup h a = Some xs" "length xs = m_size rhs" by blast
    have less: "a < length h" using xs(1) by (rule lookup_Some_less)
    have kx: "k \<le> length xs" "m_last rhs + 1 = 0 \<longrightarrow> k = 0"
      using d xs(2) by (simp_all add: k_def)
    show ?thesis
      using Some xs less k kx
      by (simp add: copy_ctor_raw_def alloc_def copy_elems_def rename_def contents_def Let_def
          k_def [symmetric])
  qed
qed

lemma copy_ctor_props:
  assumes "valid_vec rhs h" "copy_ctor rhs h = Inr (v, h')"
  shows "m_ptr v = Some (length h)" "m_size v = m_size rhs" "m_last v = m_last rhs"
    "h' = h @ [Some (array_of rhs h)]" "valid_vec v h'" "contents v h' = contents rhs h"
proof -
  from assms(2) have v: "v = \<lparr>m_ptr = Some (length h), m_size = m_size rhs, m_first = Some 0,
                 m_last = m_last rhs, m_name = ''copy''\<rparr>"
    and h': "h' = h @ [Some (array_of rhs h)]"
    unfolding copy_ctor_valid [OF assms(1)] by simp_all
  show "m_ptr v = Some (length h)" "m_size v = m_size rhs" "m_last v = m_last rhs"
    using v by simp_all
  show "h' = h @ [Some (array_of rhs h)]" by fact
  show "valid_vec v h'"
    using assms(1) by (auto simp: valid_vec_def v h' array_of_def split: option.splits)
  show "contents v h' = contents rhs h"
    by (auto simp: contents_def v h' array_of_def split: option.splits)
qed

lemma copy_ctor_raw_props:
  assumes "valid_vec rhs h" "copy_ctor_raw rhs h = Inr (v, h')"
  shows "m_ptr v = Some (length h)" "m_size v = nat (m_last rhs + 1)" "m_last v = m_last rhs"
    "h' = h @ [Some (contents rhs h)]" "valid_vec v h'" "contents v h' = contents rhs h"
proof -
  note d = valid_vecD [OF assms(1)]
  from assms(2) have v: "v = \<lparr>m_ptr = Some (length h), m_size = nat (m_last rhs + 1),
                 m_first = None, m_last = m_last rhs, m_name = ''copy''\<rparr>"
    and h': "h' = h @ [Some (contents rhs h)]"
    unfolding copy_ctor_raw_valid [OF assms(1)] by simp_all
  show "m_ptr v = Some (length h)" "m_size v = nat (m_last rhs + 1)" "m_last v = m_last rhs"
    using v by simp_all
  show "h' = h @ [Some (contents rhs h)]" by fact
  have len: "length (contents rhs h) = nat (m_last rhs + 1)"
    using assms(1) by (auto simp: valid_vec_def contents_def split: option.splits)
  show "valid_vec v h'"
    using d len by (simp add: valid_vec_def v h')
  show "contents v h' = contents rhs h"
    using len by (simp add: contents_def v h')
qed

text \<open>
  C8, as the specification states it, gives a new container the capacity \<open>max c 1\<close>.  A
  request for capacity 0 gives capacity 0, and so does the copy of such a container.
\<close>

theorem capacity_at_least_one_counterexample:
  "SJCVector_size 0 ([] :: int heap) =
     Inr (\<lparr>m_ptr = Some 0, m_size = 0, m_first = Some 0, m_last = - 1, m_name = []\<rparr>,
          [Some []]) \<and>
   m_size \<lparr>m_ptr = Some 0, m_size = 0, m_first = Some 0, m_last = - 1, m_name = []\<rparr>
     \<noteq> max 0 1 \<and>
   copy_ctor \<lparr>m_ptr = Some 0, m_size = 0, m_first = Some 0, m_last = - 1, m_name = []\<rparr>
     [Some ([] :: int list)] =
     Inr (\<lparr>m_ptr = Some 1, m_size = 0, m_first = Some 0, m_last = - 1, m_name = ''copy''\<rparr>,
          [Some [], Some []])"
  by code_simp

text \<open>
  C8, amended.  A newly constructed container has occupied count 0 and exactly the
  requested capacity \<open>c\<close>, which is \<open>max c 1\<close> when \<open>c \<ge> 1\<close>; the default constructor asks for
  1.  The construction returns whenever \<open>c\<close> elements can be allocated.  A copy has the
  capacity of its source.  In the raw-pointer variant the constructor with a size gives
  capacity \<open>c\<close> too and the default constructor capacity 0, the constructor with a label,
  which goes through \<^verbatim>\<open>resize\<close>, gives \<open>max c 1\<close>, and a copy has as capacity the occupied
  count of its source.
\<close>

theorem construction_capacity:
  fixes h :: "'a::zero heap"
  shows "(SJCVector_size c h = Inr (v, h') \<longrightarrow> occupied v = 0 \<and> m_size v = c \<and>
            (1 \<le> c \<longrightarrow> m_size v = max c 1)) \<and>
         (SJCVector_named nm c h = Inr (v, h') \<longrightarrow> occupied v = 0 \<and> m_size v = c) \<and>
         (SJCVector_default h = Inr (v, h') \<longrightarrow> occupied v = 0 \<and> m_size v = 1) \<and>
         (int c \<le> max_alloc \<longrightarrow> (\<exists>v1 h1. SJCVector_size c h = Inr (v1, h1))) \<and>
         (valid_vec rhs h \<longrightarrow>
            (\<exists>v1 h1. copy_ctor rhs h = Inr (v1, h1) \<and> m_size v1 = m_size rhs \<and>
               occupied v1 = occupied rhs)) \<and>
         (SJCVector_size_raw c h = Inr (v, h') \<longrightarrow> occupied v = 0 \<and> m_size v = c) \<and>
         (SJCVector_named_raw nm c h = Inr (v, h') \<longrightarrow> occupied v = 0 \<and> m_size v = max c 1) \<and>
         (SJCVector_default_raw h = Inr (v, h') \<longrightarrow> occupied v = 0 \<and> m_size v = 0) \<and>
         (valid_vec rhs h \<longrightarrow>
            (\<exists>v1 h1. copy_ctor_raw rhs h = Inr (v1, h1) \<and> int (m_size v1) = occupied rhs \<and>
               occupied v1 = occupied rhs))"
proof -
  have 1: "SJCVector_size c h = Inr (v, h') \<longrightarrow> occupied v = 0 \<and> m_size v = c \<and>
            (1 \<le> c \<longrightarrow> m_size v = max c 1)"
  proof
    assume "SJCVector_size c h = Inr (v, h')"
    then have i: "initSJCVector c [] h = Inr (v, h')" by (simp add: SJCVector_size_def)
    from initSJCVector_props(1) [OF i]
    show "occupied v = 0 \<and> m_size v = c \<and> (1 \<le> c \<longrightarrow> m_size v = max c 1)"
      by (simp add: occupied_def)
  qed
  have 2: "SJCVector_named nm c h = Inr (v, h') \<longrightarrow> occupied v = 0 \<and> m_size v = c"
  proof
    assume "SJCVector_named nm c h = Inr (v, h')"
    then have i: "initSJCVector c nm h = Inr (v, h')" by (simp add: SJCVector_named_def)
    from initSJCVector_props(1) [OF i] show "occupied v = 0 \<and> m_size v = c"
      by (simp add: occupied_def)
  qed
  have 3: "SJCVector_default h = Inr (v, h') \<longrightarrow> occupied v = 0 \<and> m_size v = 1"
  proof
    assume "SJCVector_default h = Inr (v, h')"
    then have i: "initSJCVector 1 [] h = Inr (v, h')" by (simp add: SJCVector_default_def)
    from initSJCVector_props(1) [OF i] show "occupied v = 0 \<and> m_size v = 1"
      by (simp add: occupied_def)
  qed
  have 4: "int c \<le> max_alloc \<longrightarrow> (\<exists>v1 h1. SJCVector_size c h = Inr (v1, h1))"
    using initSJCVector_total [of c "[]" h] by (simp add: SJCVector_size_def)
  have 5: "valid_vec rhs h \<longrightarrow>
            (\<exists>v1 h1. copy_ctor rhs h = Inr (v1, h1) \<and> m_size v1 = m_size rhs \<and>
               occupied v1 = occupied rhs)"
  proof
    assume r: "valid_vec rhs h"
    show "\<exists>v1 h1. copy_ctor rhs h = Inr (v1, h1) \<and> m_size v1 = m_size rhs \<and>
               occupied v1 = occupied rhs"
      unfolding copy_ctor_valid [OF r] by (simp add: occupied_def)
  qed
  have 6: "SJCVector_size_raw c h = Inr (v, h') \<longrightarrow> occupied v = 0 \<and> m_size v = c"
    by (auto simp: SJCVector_size_raw_def bindR_eq_Inr occupied_def split: if_splits)
  have 7: "SJCVector_named_raw nm c h = Inr (v, h') \<longrightarrow> occupied v = 0 \<and> m_size v = max c 1"
  proof
    assume a: "SJCVector_named_raw nm c h = Inr (v, h')"
    have e: "valid_vec \<lparr>m_ptr = None, m_size = 0, m_first = Some 0, m_last = - 1, m_name = nm\<rparr> h"
      using max_alloc_pos by (simp add: valid_vec_def)
    from resize_raw_props(1) [OF e a [unfolded SJCVector_named_raw_def]]
    show "occupied v = 0 \<and> m_size v = max c 1"
      by (simp add: occupied_def max.commute)
  qed
  have 8: "SJCVector_default_raw h = Inr (v, h') \<longrightarrow> occupied v = 0 \<and> m_size v = 0"
    by (auto simp: SJCVector_default_raw_def occupied_def)
  have 9: "valid_vec rhs h \<longrightarrow>
            (\<exists>v1 h1. copy_ctor_raw rhs h = Inr (v1, h1) \<and> int (m_size v1) = occupied rhs \<and>
               occupied v1 = occupied rhs)"
  proof
    assume r: "valid_vec rhs h"
    show "\<exists>v1 h1. copy_ctor_raw rhs h = Inr (v1, h1) \<and> int (m_size v1) = occupied rhs \<and>
               occupied v1 = occupied rhs"
      unfolding copy_ctor_raw_valid [OF r] using valid_vecD(1) [OF r] by (simp add: occupied_def)
  qed
  from 1 2 3 4 5 6 7 8 9 show ?thesis by (intro conjI)
qed

theorem construction_capacity_witness:
  "SJCVector_size 5 ([] :: int heap) =
     Inr (\<lparr>m_ptr = Some 0, m_size = 5, m_first = Some 0, m_last = - 1, m_name = []\<rparr>,
          [Some [0, 0, 0, 0, 0]]) \<and>
   occupied \<lparr>m_ptr = Some 0, m_size = 5, m_first = Some 0, m_last = - 1, m_name = []\<rparr> = 0 \<and>
   (1::nat) \<le> 5 \<and>
   m_size \<lparr>m_ptr = Some 0, m_size = 5, m_first = Some 0, m_last = - 1, m_name = []\<rparr> = max 5 1 \<and>
   int 5 \<le> max_alloc \<and>
   valid_vec \<lparr>m_ptr = Some 0, m_size = 5, m_first = Some 0, m_last = - 1, m_name = []\<rparr>
     [Some [0::int, 0, 0, 0, 0]] \<and>
   copy_ctor \<lparr>m_ptr = Some 0, m_size = 5, m_first = Some 0, m_last = - 1, m_name = []\<rparr>
     [Some [0::int, 0, 0, 0, 0]] =
     Inr (\<lparr>m_ptr = Some 1, m_size = 5, m_first = Some 0, m_last = - 1, m_name = ''copy''\<rparr>,
          [Some [0, 0, 0, 0, 0], Some [0, 0, 0, 0, 0]]) \<and>
   SJCVector_named_raw ''kelly'' 0 ([] :: int heap) =
     Inr (\<lparr>m_ptr = Some 0, m_size = 1, m_first = Some 0, m_last = - 1, m_name = ''kelly''\<rparr>,
          [Some [0]])"
proof -
  have a: "SJCVector_size 5 ([] :: int heap) =
     Inr (\<lparr>m_ptr = Some 0, m_size = 5, m_first = Some 0, m_last = - 1, m_name = []\<rparr>,
          [Some [0, 0, 0, 0, 0]])" by code_simp
  have b: "valid_vec \<lparr>m_ptr = Some 0, m_size = 5, m_first = Some 0, m_last = - 1, m_name = []\<rparr>
     [Some [0::int, 0, 0, 0, 0]]" by code_simp
  have c: "copy_ctor \<lparr>m_ptr = Some 0, m_size = 5, m_first = Some 0, m_last = - 1, m_name = []\<rparr>
     [Some [0::int, 0, 0, 0, 0]] =
     Inr (\<lparr>m_ptr = Some 1, m_size = 5, m_first = Some 0, m_last = - 1, m_name = ''copy''\<rparr>,
          [Some [0, 0, 0, 0, 0], Some [0, 0, 0, 0, 0]])" by code_simp
  have d: "SJCVector_named_raw ''kelly'' 0 ([] :: int heap) =
     Inr (\<lparr>m_ptr = Some 0, m_size = 1, m_first = Some 0, m_last = - 1, m_name = ''kelly''\<rparr>,
          [Some [0]])" by code_simp
  have e: "int 5 \<le> max_alloc" by (simp add: max_alloc_def)
  note t = construction_capacity [where c = 5 and h = "[] :: int heap"]
  from t [THEN conjunct1, rule_format, OF a]
  show ?thesis using a b c d e by (simp add: occupied_def)
qed

section \<open>Move and assignment\<close>

lemma same_guts:
  assumes "m_ptr w = m_ptr v" "m_size w = m_size v" "m_last w = m_last v"
  shows "valid_vec w h = valid_vec v h" "contents w h = contents v h" "occupied w = occupied v"
  using assms by (simp_all add: valid_vec_def contents_def occupied_def cong: option.case_cong)

lemma dtor_valid:
  assumes "valid_vec v h"
  shows "dtor v h = Inr (case m_ptr v of None \<Rightarrow> h | Some a \<Rightarrow> h[a := None])"
proof (cases "m_ptr v")
  case None
  then show ?thesis by (simp add: dtor_def release_def)
next
  case (Some a)
  from valid_vec_ptr [OF assms Some] Some show ?thesis
    by (auto simp: dtor_def release_def free_def)
qed

lemma assign_valid:
  assumes "valid_vec this h"
  shows "assign this copy h =
           Inr (this\<lparr>m_ptr := m_ptr copy, m_size := m_size copy, m_first := m_first copy,
                      m_last := m_last copy\<rparr>,
                case m_ptr this of None \<Rightarrow> h | Some a \<Rightarrow> h[a := None])"
proof -
  have "valid_vec (copy\<lparr>m_ptr := m_ptr this, m_size := m_size this, m_first := m_first this,
                      m_last := m_last this\<rparr>) h"
    using assms by (simp add: valid_vec_def cong: option.case_cong)
  from dtor_valid [OF this] show ?thesis
    by (simp add: assign_def swap_def)
qed

lemma assign_props:
  assumes "valid_vec this h" "valid_vec copy h" "separate this copy"
    "assign this copy h = Inr (this1, h1)"
  shows "m_ptr this1 = m_ptr copy" "m_size this1 = m_size copy" "m_last this1 = m_last copy"
    "m_name this1 = m_name this" "valid_vec this1 h1" "contents this1 h1 = contents copy h"
    "length h1 = length h"
    "\<And>b. Some b \<noteq> m_ptr this \<Longrightarrow> lookup h1 b = lookup h b"
    "\<And>a. m_ptr this = Some a \<Longrightarrow> lookup h1 a = None"
proof -
  from assms(4) have t: "this1 = this\<lparr>m_ptr := m_ptr copy, m_size := m_size copy,
        m_first := m_first copy, m_last := m_last copy\<rparr>"
    and h1: "h1 = (case m_ptr this of None \<Rightarrow> h | Some a \<Rightarrow> h[a := None])"
    unfolding assign_valid [OF assms(1)] by simp_all
  show g: "m_ptr this1 = m_ptr copy" "m_size this1 = m_size copy" "m_last this1 = m_last copy"
    "m_name this1 = m_name this"
    using t by simp_all
  show "length h1 = length h" using h1 by (simp split: option.splits)
  show f: "\<And>b. Some b \<noteq> m_ptr this \<Longrightarrow> lookup h1 b = lookup h b"
    using h1 by (auto split: option.splits)
  show "\<And>a. m_ptr this = Some a \<Longrightarrow> lookup h1 a = None"
    using h1 valid_vec_less [OF assms(1)] by simp
  have "\<And>b. m_ptr copy = Some b \<Longrightarrow> lookup h1 b = lookup h b"
    using assms(3) by (intro f) (auto simp: separate_def)
  from valid_vec_frame [OF assms(2) this] same_guts(1,2) [OF g(1,2,3), of h1]
  show "valid_vec this1 h1" "contents this1 h1 = contents copy h" by simp_all
qed

lemma move_ctor_props:
  assumes "valid_vec rhs h" "move_ctor rhs = (v, rhs1)"
  shows "m_ptr v = m_ptr rhs" "m_size v = m_size rhs" "m_last v = m_last rhs"
    "valid_vec v h" "contents v h = contents rhs h"
    "m_ptr rhs1 = None" "m_size rhs1 = 0" "m_last rhs1 = - 1" "valid_vec rhs1 h"
    "contents rhs1 h = []" "m_name rhs1 = m_name rhs"
proof -
  from assms(2) have v: "v = \<lparr>m_ptr = m_ptr rhs, m_size = m_size rhs, m_first = None,
        m_last = m_last rhs, m_name = []\<rparr>"
    and r: "rhs1 = rhs\<lparr>m_ptr := None, m_size := 0, m_last := - 1\<rparr>"
    by (simp_all add: move_ctor_def emptyVec_def)
  show g: "m_ptr v = m_ptr rhs" "m_size v = m_size rhs" "m_last v = m_last rhs"
    using v by simp_all
  from same_guts(1,2) [OF g, of h] assms(1) show "valid_vec v h" "contents v h = contents rhs h"
    by simp_all
  show "m_ptr rhs1 = None" "m_size rhs1 = 0" "m_last rhs1 = - 1" "m_name rhs1 = m_name rhs"
    using r by simp_all
  show "valid_vec rhs1 h" "contents rhs1 h = []"
    using r max_alloc_pos by (simp_all add: valid_vec_def contents_def)
qed

text \<open>
  C5.  Moving from a valid container \<open>A\<close>, by the move constructor or by
  \<^verbatim>\<open>B = std::move(A)\<close> into another valid container that does not share \<open>A\<close>'s array: the
  target has the contents and the occupied count \<open>A\<close> had; \<open>A\<close> is left with a null
  pointer, capacity 0 and occupied count 0; destroying \<open>A\<close> then releases nothing and
  leaves the store as it is, and the target can be destroyed after it.
\<close>

theorem move_leaves_source_empty:
  assumes "valid_vec A h"
  shows "(case move_ctor A of
            (B, A1) \<Rightarrow>
              contents B h = contents A h \<and> occupied B = occupied A \<and> valid_vec B h \<and>
              occupied A1 = 0 \<and> m_size A1 = 0 \<and> m_ptr A1 = None \<and> contents A1 h = [] \<and>
              dtor A1 h = Inr h \<and> (\<exists>h2. dtor B h = Inr h2)) \<and>
         (valid_vec B0 h \<and> separate B0 A \<longrightarrow>
            (\<exists>B A1 h1. assign_move B0 A h = Inr (B, A1, h1) \<and>
               contents B h1 = contents A h \<and> occupied B = occupied A \<and> valid_vec B h1 \<and>
               occupied A1 = 0 \<and> m_size A1 = 0 \<and> m_ptr A1 = None \<and> contents A1 h1 = [] \<and>
               dtor A1 h1 = Inr h1 \<and> (\<exists>h2. dtor B h1 = Inr h2)))"
proof (intro conjI impI)
  obtain B A1 where m: "move_ctor A = (B, A1)" by (cases "move_ctor A")
  note p = move_ctor_props [OF assms m]
  have "dtor A1 h = Inr h" using p(6) by (simp add: dtor_def release_def)
  moreover have "\<exists>h2. dtor B h = Inr h2" using dtor_valid [OF p(4)] by simp
  moreover have "occupied B = occupied A" "occupied A1 = 0"
    using p(3,8) by (simp_all add: occupied_def)
  ultimately show "case move_ctor A of
            (B, A1) \<Rightarrow>
              contents B h = contents A h \<and> occupied B = occupied A \<and> valid_vec B h \<and>
              occupied A1 = 0 \<and> m_size A1 = 0 \<and> m_ptr A1 = None \<and> contents A1 h = [] \<and>
              dtor A1 h = Inr h \<and> (\<exists>h2. dtor B h = Inr h2)"
    using m p by simp
next
  assume a: "valid_vec B0 h \<and> separate B0 A"
  obtain c A1 where m: "move_ctor A = (c, A1)" by (cases "move_ctor A")
  note p = move_ctor_props [OF assms m]
  have s: "separate B0 c" using a p(1) by (simp add: separate_def)
  from a have b0: "valid_vec B0 h" by simp
  obtain B h1 where as: "assign B0 c h = Inr (B, h1)"
    unfolding assign_valid [OF b0] by simp
  note q = assign_props [OF b0 p(4) s as]
  have am: "assign_move B0 A h = Inr (B, A1, h1)"
    using m as by (simp add: assign_move_def)
  have "dtor A1 h1 = Inr h1" using p(6) by (simp add: dtor_def release_def)
  moreover have "\<exists>h2. dtor B h1 = Inr h2" using dtor_valid [OF q(5)] by simp
  moreover have "occupied B = occupied A" "occupied A1 = 0"
    using p(3,8) q(3) by (simp_all add: occupied_def)
  moreover have "contents A1 h1 = []" using p(6) by (simp add: contents_def)
  ultimately show "\<exists>B A1 h1. assign_move B0 A h = Inr (B, A1, h1) \<and>
               contents B h1 = contents A h \<and> occupied B = occupied A \<and> valid_vec B h1 \<and>
               occupied A1 = 0 \<and> m_size A1 = 0 \<and> m_ptr A1 = None \<and> contents A1 h1 = [] \<and>
               dtor A1 h1 = Inr h1 \<and> (\<exists>h2. dtor B h1 = Inr h2)"
    using am q(5,6) p(5,6,7) by auto
qed

theorem move_leaves_source_empty_witness:
  "valid_vec \<lparr>m_ptr = Some 0, m_size = 3, m_first = Some 0, m_last = 1, m_name = ''n''\<rparr>
     [Some [3::int, 56, 0], Some [9]] \<and>
   valid_vec \<lparr>m_ptr = Some 1, m_size = 1, m_first = Some 0, m_last = 0, m_name = ''p''\<rparr>
     [Some [3::int, 56, 0], Some [9]] \<and>
   separate \<lparr>m_ptr = Some 1, m_size = 1, m_first = Some 0, m_last = 0, m_name = ''p''\<rparr>
     \<lparr>m_ptr = Some 0, m_size = 3, m_first = Some 0, m_last = 1, m_name = ''n''\<rparr> \<and>
   move_ctor \<lparr>m_ptr = Some 0, m_size = 3, m_first = Some 0, m_last = 1, m_name = ''n''\<rparr> =
     (\<lparr>m_ptr = Some 0, m_size = 3, m_first = None, m_last = 1, m_name = []\<rparr>,
      \<lparr>m_ptr = None, m_size = 0, m_first = Some 0, m_last = - 1, m_name = ''n''\<rparr>) \<and>
   assign_move \<lparr>m_ptr = Some 1, m_size = 1, m_first = Some 0, m_last = 0, m_name = ''p''\<rparr>
     \<lparr>m_ptr = Some 0, m_size = 3, m_first = Some 0, m_last = 1, m_name = ''n''\<rparr>
     [Some [3::int, 56, 0], Some [9]] =
     Inr (\<lparr>m_ptr = Some 0, m_size = 3, m_first = None, m_last = 1, m_name = ''p''\<rparr>,
          \<lparr>m_ptr = None, m_size = 0, m_first = Some 0, m_last = - 1, m_name = ''n''\<rparr>,
          [Some [3, 56, 0], None]) \<and>
   contents \<lparr>m_ptr = Some 0, m_size = 3, m_first = None, m_last = 1, m_name = ''p''\<rparr>
     [Some [3::int, 56, 0], None] = [3, 56] \<and>
   dtor \<lparr>m_ptr = None, m_size = 0, m_first = Some 0, m_last = - 1, m_name = ''n''\<rparr>
     [Some [3::int, 56, 0], None] = Inr [Some [3, 56, 0], None]"
proof -
  have a: "valid_vec \<lparr>m_ptr = Some 0, m_size = 3, m_first = Some 0, m_last = 1, m_name = ''n''\<rparr>
     [Some [3::int, 56, 0], Some [9]]" by code_simp
  have b: "valid_vec \<lparr>m_ptr = Some 1, m_size = 1, m_first = Some 0, m_last = 0, m_name = ''p''\<rparr>
     [Some [3::int, 56, 0], Some [9]]" by code_simp
  have c: "separate \<lparr>m_ptr = Some 1, m_size = 1, m_first = Some 0, m_last = 0, m_name = ''p''\<rparr>
     \<lparr>m_ptr = Some 0, m_size = 3, m_first = Some 0, m_last = 1, m_name = ''n''\<rparr>" by code_simp
  have d: "move_ctor \<lparr>m_ptr = Some 0, m_size = 3, m_first = Some 0, m_last = 1, m_name = ''n''\<rparr> =
     (\<lparr>m_ptr = Some 0, m_size = 3, m_first = None, m_last = 1, m_name = []\<rparr>,
      \<lparr>m_ptr = None, m_size = 0, m_first = Some 0, m_last = - 1, m_name = ''n''\<rparr>)" by code_simp
  have e: "assign_move \<lparr>m_ptr = Some 1, m_size = 1, m_first = Some 0, m_last = 0, m_name = ''p''\<rparr>
     \<lparr>m_ptr = Some 0, m_size = 3, m_first = Some 0, m_last = 1, m_name = ''n''\<rparr>
     [Some [3::int, 56, 0], Some [9]] =
     Inr (\<lparr>m_ptr = Some 0, m_size = 3, m_first = None, m_last = 1, m_name = ''p''\<rparr>,
          \<lparr>m_ptr = None, m_size = 0, m_first = Some 0, m_last = - 1, m_name = ''n''\<rparr>,
          [Some [3, 56, 0], None])" by code_simp
  have f: "contents \<lparr>m_ptr = Some 0, m_size = 3, m_first = None, m_last = 1, m_name = ''p''\<rparr>
     [Some [3::int, 56, 0], None] = [3, 56]" by code_simp
  note t = move_leaves_source_empty [OF a]
  from t [THEN conjunct2, rule_format, OF conjI, OF b c] t [THEN conjunct1]
  show ?thesis using a b c d e f by (simp add: dtor_def release_def)
qed

section \<open>Self-assignment\<close>

text \<open>
  C6.  \<^verbatim>\<open>A = A\<close> on a valid container: the parameter of the assignment operator is a copy of
  \<open>A\<close> with an array of its own, the swap gives \<open>A\<close> that array, and the destructor of the
  parameter releases the array \<open>A\<close> had before.  The call returns; \<open>A\<close> has the contents,
  the occupied count, the capacity and the label it had; the store has one new array, the
  old one is released exactly once (a second release would be a fault) and nothing else
  has changed; \<open>A\<close> can still be destroyed.
\<close>

theorem self_assignment_safe:
  assumes "valid_vec A h"
  shows "\<exists>A1 h1. assign_copy A A h = Inr (A1, h1) \<and>
           contents A1 h1 = contents A h \<and> occupied A1 = occupied A \<and>
           m_size A1 = m_size A \<and> m_name A1 = m_name A \<and> valid_vec A1 h1 \<and>
           h1 = (case m_ptr A of
                   None \<Rightarrow> h @ [Some (array_of A h)]
                 | Some a \<Rightarrow> (h @ [Some (array_of A h)])[a := None]) \<and>
           (\<exists>h2. dtor A1 h1 = Inr h2)"
proof -
  obtain c h0 where c: "copy_ctor A h = Inr (c, h0)"
    unfolding copy_ctor_valid [OF assms] by simp
  note p = copy_ctor_props [OF assms c]
  have fr: "\<And>b. m_ptr A = Some b \<Longrightarrow> lookup h0 b = lookup h b"
    using p(4) valid_vec_less [OF assms] by simp
  note va = valid_vec_frame [OF assms fr]
  have s: "separate A c"
    using p(1) valid_vec_less [OF assms] by (auto simp: separate_def)
  have va1: "valid_vec A h0" by (rule va(1))
  have "\<exists>A1 h1. assign A c h0 = Inr (A1, h1)"
    by (simp add: assign_valid [OF va1])
  then obtain A1 h1 where as: "assign A c h0 = Inr (A1, h1)" by blast
  note q = assign_props [OF va(1) p(5) s as]
  have h1: "h1 = (case m_ptr A of
                   None \<Rightarrow> h @ [Some (array_of A h)]
                 | Some a \<Rightarrow> (h @ [Some (array_of A h)])[a := None])"
    using as [unfolded assign_valid [OF va1]] p(4) by (auto split: option.splits)
  have "assign_copy A A h = Inr (A1, h1)"
    using c as by (simp add: assign_copy_def)
  moreover have "occupied A1 = occupied A" using q(3) p(3) by (simp add: occupied_def)
  moreover have "\<exists>h2. dtor A1 h1 = Inr h2" using dtor_valid [OF q(5)] by simp
  ultimately show ?thesis
    using q(2,4,5,6) p(2,6) h1 by auto
qed

theorem self_assignment_safe_witness:
  "valid_vec \<lparr>m_ptr = Some 0, m_size = 3, m_first = Some 0, m_last = 1, m_name = ''n''\<rparr>
     [Some [3::int, 56, 0]] \<and>
   assign_copy \<lparr>m_ptr = Some 0, m_size = 3, m_first = Some 0, m_last = 1, m_name = ''n''\<rparr>
     \<lparr>m_ptr = Some 0, m_size = 3, m_first = Some 0, m_last = 1, m_name = ''n''\<rparr>
     [Some [3::int, 56, 0]] =
     Inr (\<lparr>m_ptr = Some 1, m_size = 3, m_first = Some 0, m_last = 1, m_name = ''n''\<rparr>,
          [None, Some [3, 56, 0]]) \<and>
   contents \<lparr>m_ptr = Some 1, m_size = 3, m_first = Some 0, m_last = 1, m_name = ''n''\<rparr>
     [None, Some [3::int, 56, 0]] =
   contents \<lparr>m_ptr = Some 0, m_size = 3, m_first = Some 0, m_last = 1, m_name = ''n''\<rparr>
     [Some [3::int, 56, 0]] \<and>
   dtor \<lparr>m_ptr = Some 1, m_size = 3, m_first = Some 0, m_last = 1, m_name = ''n''\<rparr>
     [None, Some [3::int, 56, 0]] = Inr [None, None]"
proof -
  have a: "valid_vec \<lparr>m_ptr = Some 0, m_size = 3, m_first = Some 0, m_last = 1, m_name = ''n''\<rparr>
     [Some [3::int, 56, 0]]" by code_simp
  have b: "assign_copy \<lparr>m_ptr = Some 0, m_size = 3, m_first = Some 0, m_last = 1, m_name = ''n''\<rparr>
     \<lparr>m_ptr = Some 0, m_size = 3, m_first = Some 0, m_last = 1, m_name = ''n''\<rparr>
     [Some [3::int, 56, 0]] =
     Inr (\<lparr>m_ptr = Some 1, m_size = 3, m_first = Some 0, m_last = 1, m_name = ''n''\<rparr>,
          [None, Some [3, 56, 0]])" by code_simp
  have c: "dtor \<lparr>m_ptr = Some 1, m_size = 3, m_first = Some 0, m_last = 1, m_name = ''n''\<rparr>
     [None, Some [3::int, 56, 0]] = Inr [None, None]" by code_simp
  from self_assignment_safe [OF a] b
  have "contents \<lparr>m_ptr = Some 1, m_size = 3, m_first = Some 0, m_last = 1, m_name = ''n''\<rparr>
     [None, Some [3::int, 56, 0]] =
   contents \<lparr>m_ptr = Some 0, m_size = 3, m_first = Some 0, m_last = 1, m_name = ''n''\<rparr>
     [Some [3::int, 56, 0]]" by auto
  with a b c show ?thesis by simp
qed

section \<open>Independence of copies\<close>

lemma resize_ptr:
  assumes "resize n v h = Inr (v', h')"
  shows "m_ptr v' = Some (length h)"
  using assms
  by (auto simp: resize_def Let_def bindR_eq_Inr alloc_eq_Inr split: if_splits)

lemma resize_raw_ptr:
  assumes "resize_raw n v h = Inr (v', h')"
  shows "m_ptr v' = Some (length h)"
  using assms
  by (auto simp: resize_raw_def Let_def bindR_eq_Inr alloc_eq_Inr split: if_splits)

lemma push_back_ptr:
  assumes "push_back x v h = Inr (v', h')"
  shows "m_ptr v' = m_ptr v \<or> m_ptr v' = Some (length h)"
proof -
  from assms obtain v1 h1 where
    s1: "(if m_size v = to_size_t (m_last v + 1) \<or> m_size v = 0 then resize_geometric v h
          else Inr (v, h)) = Inr (v1, h1)"
    and s2: "(if to_size_t (m_last v1 + 1) < m_size v1 then
                let v2 = v1\<lparr>m_last := m_last v1 + 1\<rparr>
                in bindR (write_elem (m_ptr v2) (m_last v2) x h1) (\<lambda>h2. Inr (v2, h2))
              else Inr (v1, h1)) = Inr (v', h')"
    by (auto simp: push_back_def bindR_eq_Inr)
  have "m_ptr v1 = m_ptr v \<or> m_ptr v1 = Some (length h)"
    using s1 by (auto simp: resize_geometric_def resize_ptr split: if_splits)
  moreover have "m_ptr v' = m_ptr v1"
    using s2 by (auto simp: bindR_eq_Inr Let_def split: if_splits)
  ultimately show ?thesis by simp
qed

lemma push_back_raw_ptr:
  assumes "push_back_raw x v h = Inr (v', h')"
  shows "m_ptr v' = m_ptr v \<or> m_ptr v' = Some (length h)"
proof -
  from assms obtain v1 h1 where
    s1: "(if m_size v = to_size_t (m_last v + 1) \<or> m_size v = 0 then resize_geometric_raw v h
          else Inr (v, h)) = Inr (v1, h1)"
    and s2: "(if to_size_t (m_last v1 + 1) < m_size v1 then
                let v2 = v1\<lparr>m_last := m_last v1 + 1\<rparr>
                in bindR (write_elem (m_ptr v2) (m_last v2) x h1) (\<lambda>h2. Inr (v2, h2))
              else Inr (v1, h1)) = Inr (v', h')"
    by (auto simp: push_back_raw_def bindR_eq_Inr)
  have "m_ptr v1 = m_ptr v \<or> m_ptr v1 = Some (length h)"
    using s1 by (auto simp: resize_geometric_raw_def resize_raw_ptr split: if_splits)
  moreover have "m_ptr v' = m_ptr v1"
    using s2 by (auto simp: bindR_eq_Inr Let_def split: if_splits)
  ultimately show ?thesis by simp
qed

lemma mutate_step:
  assumes "valid_vec v h" "mutate m v h = Inr (v', h')"
  shows "valid_vec v' h'"
    and "m_ptr v' = m_ptr v \<or> m_ptr v' = Some (length h)"
    and "\<And>b. b < length h \<Longrightarrow> Some b \<noteq> m_ptr v \<Longrightarrow> lookup h' b = lookup h b"
proof -
  show "valid_vec v' h'"
    using assms by (cases m) (auto dest: push_back_props(3) resize_props(2))
  show "m_ptr v' = m_ptr v \<or> m_ptr v' = Some (length h)"
    using assms(2) by (cases m) (auto dest: push_back_ptr resize_ptr)
  show "\<And>b. b < length h \<Longrightarrow> Some b \<noteq> m_ptr v \<Longrightarrow> lookup h' b = lookup h b"
    using assms(2) by (cases m) (auto dest: push_back_frame resize_frame)
qed

lemma mutate_raw_step:
  assumes "valid_vec v h" "mutate_raw m v h = Inr (v', h')"
  shows "valid_vec v' h'"
    and "m_ptr v' = m_ptr v \<or> m_ptr v' = Some (length h)"
    and "\<And>b. b < length h \<Longrightarrow> Some b \<noteq> m_ptr v \<Longrightarrow> lookup h' b = lookup h b"
proof -
  show "valid_vec v' h'"
    using assms by (cases m) (auto dest: push_back_raw_props(3) resize_raw_props(2))
  show "m_ptr v' = m_ptr v \<or> m_ptr v' = Some (length h)"
    using assms(2) by (cases m) (auto dest: push_back_raw_ptr resize_raw_ptr)
  show "\<And>b. b < length h \<Longrightarrow> Some b \<noteq> m_ptr v \<Longrightarrow> lookup h' b = lookup h b"
    using assms(2) by (cases m) (auto dest: push_back_raw_frame resize_raw_frame)
qed

lemma bystander:
  assumes "valid_vec w h" "separate w v"
    "m_ptr v' = m_ptr v \<or> m_ptr v' = Some (length h)"
    "\<And>b. b < length h \<Longrightarrow> Some b \<noteq> m_ptr v \<Longrightarrow> lookup h' b = lookup h b"
  shows "valid_vec w h'" "contents w h' = contents w h" "separate w v'"
proof -
  have f: "\<And>b. m_ptr w = Some b \<Longrightarrow> lookup h' b = lookup h b"
    using assms(2) valid_vec_less [OF assms(1)] by (intro assms(4)) (auto simp: separate_def)
  from valid_vec_frame [OF assms(1) f]
  show "valid_vec w h'" "contents w h' = contents w h" by simp_all
  show "separate w v'"
    using assms(2,3) valid_vec_less [OF assms(1)] by (auto simp: separate_def)
qed

lemma mutate_all_bystander:
  assumes "valid_vec v h" "valid_vec w h" "separate w v" "mutate_all ms v h = Inr (v', h')"
  shows "valid_vec w h' \<and> contents w h' = contents w h"
  using assms
proof (induction ms arbitrary: v h)
  case Nil
  then show ?case by simp
next
  case (Cons m ms)
  from Cons.prems(4) obtain v1 h1 where
    s: "mutate m v h = Inr (v1, h1)" and r: "mutate_all ms v1 h1 = Inr (v', h')"
    by (auto split: sum.splits)
  note p = mutate_step [OF Cons.prems(1) s]
  note b = bystander [OF Cons.prems(2,3) p(2,3)]
  from Cons.IH [OF p(1) b(1,3) r] b(2) show ?case by simp
qed

lemma mutate_all_raw_bystander:
  assumes "valid_vec v h" "valid_vec w h" "separate w v" "mutate_all_raw ms v h = Inr (v', h')"
  shows "valid_vec w h' \<and> contents w h' = contents w h"
  using assms
proof (induction ms arbitrary: v h)
  case Nil
  then show ?case by simp
next
  case (Cons m ms)
  from Cons.prems(4) obtain v1 h1 where
    s: "mutate_raw m v h = Inr (v1, h1)" and r: "mutate_all_raw ms v1 h1 = Inr (v', h')"
    by (auto split: sum.splits)
  note p = mutate_raw_step [OF Cons.prems(1) s]
  note b = bystander [OF Cons.prems(2,3) p(2,3)]
  from Cons.IH [OF p(1) b(1,3) r] b(2) show ?case by simp
qed

lemma valid_vec_not_fresh:
  assumes "valid_vec v h"
  shows "m_ptr v \<noteq> Some (length h)"
  using valid_vec_less [OF assms] by auto

lemma copy_ctor_copied:
  assumes "valid_vec A h" "copy_ctor A h = Inr (B, h1)"
  shows "copied A h B h1"
proof -
  note p = copy_ctor_props [OF assms]
  have fr: "\<And>b. m_ptr A = Some b \<Longrightarrow> lookup h1 b = lookup h b"
    using p(4) valid_vec_less [OF assms(1)] by simp
  note va = valid_vec_frame [OF assms(1) fr]
  have "separate A B" "separate B A"
    using p(1) valid_vec_not_fresh [OF assms(1)] by (auto simp: separate_def)
  with va p(3,5,6) show ?thesis by (simp add: copied_def occupied_def)
qed

lemma copy_ctor_raw_copied:
  assumes "valid_vec A h" "copy_ctor_raw A h = Inr (B, h1)"
  shows "copied A h B h1"
proof -
  note p = copy_ctor_raw_props [OF assms]
  have fr: "\<And>b. m_ptr A = Some b \<Longrightarrow> lookup h1 b = lookup h b"
    using p(4) valid_vec_less [OF assms(1)] by simp
  note va = valid_vec_frame [OF assms(1) fr]
  have "separate A B" "separate B A"
    using p(1) valid_vec_not_fresh [OF assms(1)] by (auto simp: separate_def)
  with va p(3,5,6) show ?thesis by (simp add: copied_def occupied_def)
qed

lemma assign_after_copy:
  assumes "valid_vec A h" "valid_vec B0 h" "separate B0 A" "copied A h c h0"
    "m_ptr c = Some (length h)" "length h0 = Suc (length h)"
    "\<And>b. b < length h \<Longrightarrow> lookup h0 b = lookup h b"
    "assign B0 c h0 = Inr (B, h1)"
  shows "copied A h B h1"
proof -
  have c: "valid_vec A h0" "valid_vec c h0" "contents A h0 = contents A h"
    "contents c h0 = contents A h" "occupied c = occupied A"
    using assms(4) by (simp_all add: copied_def)
  have fb: "\<And>b. m_ptr B0 = Some b \<Longrightarrow> lookup h0 b = lookup h b"
    using valid_vec_less [OF assms(2)] by (intro assms(7)) simp
  note vb = valid_vec_frame [OF assms(2) fb]
  have s: "separate B0 c"
    using assms(5) valid_vec_less [OF assms(2)] by (auto simp: separate_def)
  note q = assign_props [OF vb(1) c(2) s assms(8)]
  have fa: "\<And>b. m_ptr A = Some b \<Longrightarrow> lookup h1 b = lookup h0 b"
    using assms(3) by (intro q(8)) (auto simp: separate_def)
  note va = valid_vec_frame [OF c(1) fa]
  have "separate A B" "separate B A"
    using q(1) assms(5) valid_vec_not_fresh [OF assms(1)] by (auto simp: separate_def)
  moreover have "occupied B = occupied A" using q(3) c(5) by (simp add: occupied_def)
  ultimately show ?thesis
    using va q(5,6) c(3,4) by (simp add: copied_def)
qed

lemma assign_copy_copied:
  assumes "valid_vec A h" "valid_vec B0 h" "separate B0 A" "assign_copy B0 A h = Inr (B, h1)"
  shows "copied A h B h1"
proof -
  from assms(4) obtain c h0 where c: "copy_ctor A h = Inr (c, h0)"
    and a: "assign B0 c h0 = Inr (B, h1)"
    by (auto simp: assign_copy_def bindR_eq_Inr)
  note p = copy_ctor_props [OF assms(1) c]
  have "length h0 = Suc (length h)" "\<And>b. b < length h \<Longrightarrow> lookup h0 b = lookup h b"
    using p(4) by simp_all
  from assign_after_copy [OF assms(1,2,3) copy_ctor_copied [OF assms(1) c] p(1) this a]
  show ?thesis .
qed

lemma assign_copy_raw_copied:
  assumes "valid_vec A h" "valid_vec B0 h" "separate B0 A"
    "assign_copy_raw B0 A h = Inr (B, h1)"
  shows "copied A h B h1"
proof -
  from assms(4) obtain c h0 where c: "copy_ctor_raw A h = Inr (c, h0)"
    and a: "assign B0 c h0 = Inr (B, h1)"
    by (auto simp: assign_copy_raw_def bindR_eq_Inr)
  note p = copy_ctor_raw_props [OF assms(1) c]
  have "length h0 = Suc (length h)" "\<And>b. b < length h \<Longrightarrow> lookup h0 b = lookup h b"
    using p(4) by simp_all
  from assign_after_copy [OF assms(1,2,3) copy_ctor_raw_copied [OF assms(1) c] p(1) this a]
  show ?thesis .
qed

lemma copied_independent:
  assumes "copied A h B h1"
  shows "contents B h1 = contents A h" "occupied B = occupied A"
    "mutate_all ms B h1 = Inr (B', h2) \<Longrightarrow> contents A h2 = contents A h"
    "mutate_all ms A h1 = Inr (A', h2) \<Longrightarrow> contents B h2 = contents A h"
    "mutate_all_raw ms B h1 = Inr (B', h2) \<Longrightarrow> contents A h2 = contents A h"
    "mutate_all_raw ms A h1 = Inr (A', h2) \<Longrightarrow> contents B h2 = contents A h"
proof -
  have c: "valid_vec A h1" "valid_vec B h1" "separate A B" "separate B A"
    "contents A h1 = contents A h" "contents B h1 = contents A h" "occupied B = occupied A"
    using assms by (simp_all add: copied_def)
  show "contents B h1 = contents A h" "occupied B = occupied A" by fact+
  show "mutate_all ms B h1 = Inr (B', h2) \<Longrightarrow> contents A h2 = contents A h"
    using mutate_all_bystander [OF c(2,1,3)] c(5) by simp
  show "mutate_all ms A h1 = Inr (A', h2) \<Longrightarrow> contents B h2 = contents A h"
    using mutate_all_bystander [OF c(1,2,4)] c(6) by simp
  show "mutate_all_raw ms B h1 = Inr (B', h2) \<Longrightarrow> contents A h2 = contents A h"
    using mutate_all_raw_bystander [OF c(2,1,3)] c(5) by simp
  show "mutate_all_raw ms A h1 = Inr (A', h2) \<Longrightarrow> contents B h2 = contents A h"
    using mutate_all_raw_bystander [OF c(1,2,4)] c(6) by simp
qed

lemma mutate_fault:
  assumes "valid_vec v h" "mutate m v h = Inl e"
  shows "e = BadAlloc \<or> (\<exists>s. e = Overrun s)"
proof (cases m)
  case (Append x)
  with assms(2) push_back_fault [OF assms(1), of x e] show ?thesis by simp
next
  case (Resize n)
  with assms(2) have "resize n v h = Inl e" by simp
  then show ?thesis
    unfolding resize_valid [OF assms(1)] by (auto simp: Let_def split: if_splits)
qed

lemma mutate_raw_fault:
  assumes "valid_vec v h" "mutate_raw m v h = Inl e"
  shows "e = BadAlloc"
proof (cases m)
  case (Append x)
  with assms(2) push_back_raw_fault [OF assms(1), of x e] show ?thesis by simp
next
  case (Resize n)
  with assms(2) have "resize_raw n v h = Inl e" by simp
  then show ?thesis
    unfolding resize_raw_valid [OF assms(1)] by (auto simp: Let_def split: if_splits)
qed

lemma mutate_all_fault:
  assumes "valid_vec v h" "mutate_all ms v h = Inl e"
  shows "e = BadAlloc \<or> (\<exists>s. e = Overrun s)"
  using assms
proof (induction ms arbitrary: v h)
  case Nil
  then show ?case by simp
next
  case (Cons m ms)
  show ?case
  proof (cases "mutate m v h")
    case (Inl e')
    with Cons.prems(2) have "e' = e" by simp
    with mutate_fault [OF Cons.prems(1) Inl] show ?thesis by simp
  next
    case (Inr r)
    obtain v1 h1 where r: "r = (v1, h1)" by (cases r)
    from Cons.prems(2) Inr r have "mutate_all ms v1 h1 = Inl e" by simp
    from Cons.IH [OF mutate_step(1) [OF Cons.prems(1) Inr [unfolded r]] this]
    show ?thesis .
  qed
qed

lemma mutate_all_raw_fault:
  assumes "valid_vec v h" "mutate_all_raw ms v h = Inl e"
  shows "e = BadAlloc"
  using assms
proof (induction ms arbitrary: v h)
  case Nil
  then show ?case by simp
next
  case (Cons m ms)
  show ?case
  proof (cases "mutate_raw m v h")
    case (Inl e')
    with Cons.prems(2) have "e' = e" by simp
    with mutate_raw_fault [OF Cons.prems(1) Inl] show ?thesis by simp
  next
    case (Inr r)
    obtain v1 h1 where r: "r = (v1, h1)" by (cases r)
    from Cons.prems(2) Inr r have "mutate_all_raw ms v1 h1 = Inl e" by simp
    from Cons.IH [OF mutate_raw_step(1) [OF Cons.prems(1) Inr [unfolded r]] this]
    show ?thesis .
  qed
qed

text \<open>
  How far the independence of a copy goes.  Let \<open>B\<close> be a copy of a valid container \<open>A\<close>,
  made by the copy constructor or by assigning \<open>A\<close> to another valid container \<open>B0\<close> that
  does not share \<open>A\<close>'s array.  The copy always returns, and \<open>B\<close> shows the contents and the
  occupied count of \<open>A\<close>.  In the raw-pointer variant every run of \<^verbatim>\<open>push_back\<close> and
  \<^verbatim>\<open>resize\<close> calls on one of the two returns or throws from an allocation, and when it has
  returned the contents of the other are what they were.  In the \<^verbatim>\<open>unique_ptr\<close> variant
  this is so for the runs that return; the others throw from an allocation or overrun an
  array, and after an overrun nothing is known about the other container.  A call on one
  object receives and returns the members of that object only, so the cursor of the other
  is not touched.
\<close>

theorem copy_independence:
  fixes h :: "'a::zero heap"
  assumes "valid_vec A h"
  shows "(\<exists>B h1. copy_ctor A h = Inr (B, h1)) \<and>
         (copy_ctor A h = Inr (B, h1) \<or>
          valid_vec B0 h \<and> separate B0 A \<and> assign_copy B0 A h = Inr (B, h1) \<longrightarrow>
            contents B h1 = contents A h \<and> occupied B = occupied A \<and>
            (\<forall>ms B' h2. mutate_all ms B h1 = Inr (B', h2) \<longrightarrow> contents A h2 = contents A h) \<and>
            (\<forall>ms A' h2. mutate_all ms A h1 = Inr (A', h2) \<longrightarrow> contents B h2 = contents A h) \<and>
            (\<forall>ms e. mutate_all ms B h1 = Inl e \<or> mutate_all ms A h1 = Inl e \<longrightarrow>
               e = BadAlloc \<or> (\<exists>s. e = Overrun s))) \<and>
         (\<exists>B h1. copy_ctor_raw A h = Inr (B, h1)) \<and>
         (copy_ctor_raw A h = Inr (B, h1) \<or>
          valid_vec B0 h \<and> separate B0 A \<and> assign_copy_raw B0 A h = Inr (B, h1) \<longrightarrow>
            contents B h1 = contents A h \<and> occupied B = occupied A \<and>
            (\<forall>ms B' h2. mutate_all_raw ms B h1 = Inr (B', h2) \<longrightarrow>
               contents A h2 = contents A h) \<and>
            (\<forall>ms A' h2. mutate_all_raw ms A h1 = Inr (A', h2) \<longrightarrow>
               contents B h2 = contents A h) \<and>
            (\<forall>ms e. mutate_all_raw ms B h1 = Inl e \<or> mutate_all_raw ms A h1 = Inl e \<longrightarrow>
               e = BadAlloc))"
proof -
  have 1: "\<exists>B h1. copy_ctor A h = Inr (B, h1)"
    unfolding copy_ctor_valid [OF assms] by simp
  have 3: "\<exists>B h1. copy_ctor_raw A h = Inr (B, h1)"
    unfolding copy_ctor_raw_valid [OF assms] by simp
  have 2: "copy_ctor A h = Inr (B, h1) \<or>
          valid_vec B0 h \<and> separate B0 A \<and> assign_copy B0 A h = Inr (B, h1) \<longrightarrow>
            contents B h1 = contents A h \<and> occupied B = occupied A \<and>
            (\<forall>ms B' h2. mutate_all ms B h1 = Inr (B', h2) \<longrightarrow> contents A h2 = contents A h) \<and>
            (\<forall>ms A' h2. mutate_all ms A h1 = Inr (A', h2) \<longrightarrow> contents B h2 = contents A h) \<and>
            (\<forall>ms e. mutate_all ms B h1 = Inl e \<or> mutate_all ms A h1 = Inl e \<longrightarrow>
               e = BadAlloc \<or> (\<exists>s. e = Overrun s))"
  proof
    assume "copy_ctor A h = Inr (B, h1) \<or>
          valid_vec B0 h \<and> separate B0 A \<and> assign_copy B0 A h = Inr (B, h1)"
    then have c: "copied A h B h1"
      using copy_ctor_copied [OF assms] assign_copy_copied [OF assms] by blast
    note i = copied_independent [OF c]
    have v: "valid_vec A h1" "valid_vec B h1" using c by (simp_all add: copied_def)
    have f: "\<forall>ms e. mutate_all ms B h1 = Inl e \<or> mutate_all ms A h1 = Inl e \<longrightarrow>
               e = BadAlloc \<or> (\<exists>s. e = Overrun s)"
      using mutate_all_fault [OF v(1)] mutate_all_fault [OF v(2)] by blast
    show "contents B h1 = contents A h \<and> occupied B = occupied A \<and>
            (\<forall>ms B' h2. mutate_all ms B h1 = Inr (B', h2) \<longrightarrow> contents A h2 = contents A h) \<and>
            (\<forall>ms A' h2. mutate_all ms A h1 = Inr (A', h2) \<longrightarrow> contents B h2 = contents A h) \<and>
            (\<forall>ms e. mutate_all ms B h1 = Inl e \<or> mutate_all ms A h1 = Inl e \<longrightarrow>
               e = BadAlloc \<or> (\<exists>s. e = Overrun s))"
      using i(1,2) i(3) i(4) f by blast
  qed
  have 4: "copy_ctor_raw A h = Inr (B, h1) \<or>
          valid_vec B0 h \<and> separate B0 A \<and> assign_copy_raw B0 A h = Inr (B, h1) \<longrightarrow>
            contents B h1 = contents A h \<and> occupied B = occupied A \<and>
            (\<forall>ms B' h2. mutate_all_raw ms B h1 = Inr (B', h2) \<longrightarrow>
               contents A h2 = contents A h) \<and>
            (\<forall>ms A' h2. mutate_all_raw ms A h1 = Inr (A', h2) \<longrightarrow>
               contents B h2 = contents A h) \<and>
            (\<forall>ms e. mutate_all_raw ms B h1 = Inl e \<or> mutate_all_raw ms A h1 = Inl e \<longrightarrow>
               e = BadAlloc)"
  proof
    assume "copy_ctor_raw A h = Inr (B, h1) \<or>
          valid_vec B0 h \<and> separate B0 A \<and> assign_copy_raw B0 A h = Inr (B, h1)"
    then have c: "copied A h B h1"
      using copy_ctor_raw_copied [OF assms] assign_copy_raw_copied [OF assms] by blast
    note i = copied_independent [OF c]
    have v: "valid_vec A h1" "valid_vec B h1" using c by (simp_all add: copied_def)
    have f: "\<forall>ms e. mutate_all_raw ms B h1 = Inl e \<or> mutate_all_raw ms A h1 = Inl e \<longrightarrow>
               e = BadAlloc"
      using mutate_all_raw_fault [OF v(1)] mutate_all_raw_fault [OF v(2)] by blast
    show "contents B h1 = contents A h \<and> occupied B = occupied A \<and>
            (\<forall>ms B' h2. mutate_all_raw ms B h1 = Inr (B', h2) \<longrightarrow>
               contents A h2 = contents A h) \<and>
            (\<forall>ms A' h2. mutate_all_raw ms A h1 = Inr (A', h2) \<longrightarrow>
               contents B h2 = contents A h) \<and>
            (\<forall>ms e. mutate_all_raw ms B h1 = Inl e \<or> mutate_all_raw ms A h1 = Inl e \<longrightarrow>
               e = BadAlloc)"
      using i(1,2) i(5) i(6) f by blast
  qed
  from 1 2 3 4 show ?thesis by (intro conjI)
qed

theorem copy_independence_witness:
  "valid_vec \<lparr>m_ptr = Some 0, m_size = 3, m_first = Some 0, m_last = 1, m_name = ''n''\<rparr>
     [Some [3::int, 56, 0]] \<and>
   copy_ctor \<lparr>m_ptr = Some 0, m_size = 3, m_first = Some 0, m_last = 1, m_name = ''n''\<rparr>
     [Some [3::int, 56, 0]] =
     Inr (\<lparr>m_ptr = Some 1, m_size = 3, m_first = Some 0, m_last = 1, m_name = ''copy''\<rparr>,
          [Some [3, 56, 0], Some [3, 56, 0]]) \<and>
   mutate_all [Append 9, Append 7]
     \<lparr>m_ptr = Some 1, m_size = 3, m_first = Some 0, m_last = 1, m_name = ''copy''\<rparr>
     [Some [3::int, 56, 0], Some [3, 56, 0]] =
     Inr (\<lparr>m_ptr = Some 2, m_size = 7, m_first = Some 0, m_last = 3, m_name = ''copy''\<rparr>,
          [Some [3, 56, 0], None, Some [3, 56, 9, 7, 0, 0, 0]]) \<and>
   contents \<lparr>m_ptr = Some 0, m_size = 3, m_first = Some 0, m_last = 1, m_name = ''n''\<rparr>
     [Some [3::int, 56, 0], None, Some [3, 56, 9, 7, 0, 0, 0]] =
   contents \<lparr>m_ptr = Some 0, m_size = 3, m_first = Some 0, m_last = 1, m_name = ''n''\<rparr>
     [Some [3::int, 56, 0]] \<and>
   mutate_all [Append 1, Append 2]
     \<lparr>m_ptr = Some 0, m_size = 3, m_first = Some 0, m_last = 1, m_name = ''n''\<rparr>
     [Some [3::int, 56, 0], Some [3, 56, 0]] =
     Inr (\<lparr>m_ptr = Some 2, m_size = 7, m_first = Some 0, m_last = 3, m_name = ''n''\<rparr>,
          [None, Some [3, 56, 0], Some [3, 56, 1, 2, 0, 0, 0]]) \<and>
   contents \<lparr>m_ptr = Some 1, m_size = 3, m_first = Some 0, m_last = 1, m_name = ''copy''\<rparr>
     [None, Some [3::int, 56, 0], Some [3, 56, 1, 2, 0, 0, 0]] =
   contents \<lparr>m_ptr = Some 0, m_size = 3, m_first = Some 0, m_last = 1, m_name = ''n''\<rparr>
     [Some [3::int, 56, 0]]"
proof -
  have a: "valid_vec \<lparr>m_ptr = Some 0, m_size = 3, m_first = Some 0, m_last = 1, m_name = ''n''\<rparr>
     [Some [3::int, 56, 0]]" by code_simp
  have b: "copy_ctor \<lparr>m_ptr = Some 0, m_size = 3, m_first = Some 0, m_last = 1, m_name = ''n''\<rparr>
     [Some [3::int, 56, 0]] =
     Inr (\<lparr>m_ptr = Some 1, m_size = 3, m_first = Some 0, m_last = 1, m_name = ''copy''\<rparr>,
          [Some [3, 56, 0], Some [3, 56, 0]])" by code_simp
  have c: "mutate_all [Append 9, Append 7]
     \<lparr>m_ptr = Some 1, m_size = 3, m_first = Some 0, m_last = 1, m_name = ''copy''\<rparr>
     [Some [3::int, 56, 0], Some [3, 56, 0]] =
     Inr (\<lparr>m_ptr = Some 2, m_size = 7, m_first = Some 0, m_last = 3, m_name = ''copy''\<rparr>,
          [Some [3, 56, 0], None, Some [3, 56, 9, 7, 0, 0, 0]])" by code_simp
  have d: "mutate_all [Append 1, Append 2]
     \<lparr>m_ptr = Some 0, m_size = 3, m_first = Some 0, m_last = 1, m_name = ''n''\<rparr>
     [Some [3::int, 56, 0], Some [3, 56, 0]] =
     Inr (\<lparr>m_ptr = Some 2, m_size = 7, m_first = Some 0, m_last = 3, m_name = ''n''\<rparr>,
          [None, Some [3, 56, 0], Some [3, 56, 1, 2, 0, 0, 0]])" by code_simp
  note t = copy_independence [OF a, THEN conjunct2, THEN conjunct1, rule_format, OF disjI1, OF b]
  from t [THEN conjunct2, THEN conjunct2, THEN conjunct1, rule_format, OF c]
       t [THEN conjunct2, THEN conjunct2, THEN conjunct2, THEN conjunct1, rule_format, OF d]
  show ?thesis using a b c d by simp
qed

text \<open>
  C4.  A container with capacity 3 and contents \<open>[1, 2, 3]\<close> is copied and the copy is asked
  to \<^verbatim>\<open>resize(2)\<close>, a mutation of the copy.  In the raw-pointer variant the call returns,
  the copy shows \<open>[1, 2]\<close> and the original still shows \<open>[1, 2, 3]\<close> with occupied count 3,
  as the specification has it.  In the \<^verbatim>\<open>unique_ptr\<close> variant the call copies three elements into
  the copy's new array of two: it writes past the end of an array on the free store, on
  which the original's array lies too: nothing keeps the original as it was.  It is the faulty element
  count of \<^verbatim>\<open>resize\<close> that C3 shows.
\<close>

theorem copy_shrink_trace:
  "copy_ctor \<lparr>m_ptr = Some 0, m_size = 3, m_first = Some 0, m_last = 2, m_name = ''kelly''\<rparr>
     [Some [1::int, 2, 3]] =
     Inr (\<lparr>m_ptr = Some 1, m_size = 3, m_first = Some 0, m_last = 2, m_name = ''copy''\<rparr>,
          [Some [1, 2, 3], Some [1, 2, 3]]) \<and>
   mutate (Resize 2)
     \<lparr>m_ptr = Some 1, m_size = 3, m_first = Some 0, m_last = 2, m_name = ''copy''\<rparr>
     [Some [1::int, 2, 3], Some [1, 2, 3]] =
     Inl (Overrun
       (\<lparr>m_ptr = Some 2, m_size = 2, m_first = Some 0, m_last = 1, m_name = ''copy''\<rparr>,
        [Some [1, 2, 3], None, Some [1, 2]])) \<and>
   copy_ctor_raw \<lparr>m_ptr = Some 0, m_size = 3, m_first = Some 0, m_last = 2, m_name = ''kelly''\<rparr>
     [Some [1::int, 2, 3]] =
     Inr (\<lparr>m_ptr = Some 1, m_size = 3, m_first = None, m_last = 2, m_name = ''copy''\<rparr>,
          [Some [1, 2, 3], Some [1, 2, 3]]) \<and>
   mutate_raw (Resize 2)
     \<lparr>m_ptr = Some 1, m_size = 3, m_first = None, m_last = 2, m_name = ''copy''\<rparr>
     [Some [1::int, 2, 3], Some [1, 2, 3]] =
     Inr (\<lparr>m_ptr = Some 2, m_size = 2, m_first = None, m_last = 1, m_name = ''copy''\<rparr>,
          [Some [1, 2, 3], None, Some [1, 2]]) \<and>
   contents \<lparr>m_ptr = Some 0, m_size = 3, m_first = Some 0, m_last = 2, m_name = ''kelly''\<rparr>
     [Some [1::int, 2, 3], None, Some [1, 2]] = [1, 2, 3] \<and>
   occupied \<lparr>m_ptr = Some 0, m_size = 3, m_first = Some 0, m_last = 2, m_name = ''kelly''\<rparr> = 3"
  by code_simp

section \<open>The state invariant\<close>

lemma final_alloc:
  "final (alloc n h) = Some r \<longleftrightarrow> int n \<le> max_alloc \<and> r = (length h, h @ [Some (replicate n 0)])"
  by (auto simp: alloc_def)

lemma initSJCVector_final:
  "final (initSJCVector c nm h) = Some r \<longleftrightarrow> initSJCVector c nm h = Inr r"
  by (auto simp: initSJCVector_def alloc_def)

lemma cursor_ok_guts:
  assumes "m_size w = m_size v" "m_last w = m_last v"
  shows "cursor_ok w = cursor_ok v"
  using assms by (simp add: cursor_ok_def)

lemma initSJCVector_ok:
  assumes "final (initSJCVector c nm h) = Some (v, h')"
  shows "cursor_ok v"
proof -
  from assms have i: "initSJCVector c nm h = Inr (v, h')" by (simp add: initSJCVector_final)
  from initSJCVector_props(1,5) [OF i] show ?thesis by (simp add: cursor_ok_def)
qed

lemma copy_ctor_ok:
  assumes "cursor_ok rhs" "final (copy_ctor rhs h) = Some (v, h')"
  shows "cursor_ok v"
proof -
  from assms(2) have "m_size v = m_size rhs" "m_last v = m_last rhs"
    by (auto simp: copy_ctor_def final_bindR_Some initSJCVector_final rename_def
        dest!: initSJCVector_props(1))
  with assms(1) show ?thesis by (simp add: cursor_ok_def)
qed

lemma move_ctor_ok:
  assumes "cursor_ok rhs" "move_ctor rhs = (v, rhs1)"
  shows "cursor_ok v" "cursor_ok rhs1"
  using assms max_alloc_pos by (auto simp: move_ctor_def cursor_ok_def emptyVec_def)

lemma swap_ok:
  assumes "cursor_ok a" "cursor_ok b" "swap a b = (a1, b1)"
  shows "cursor_ok a1" "cursor_ok b1"
  using assms by (auto simp: swap_def cursor_ok_def)

lemma assign_ok:
  assumes "cursor_ok copy" "final (assign this copy h) = Some (this1, h1)"
  shows "cursor_ok this1"
  using assms by (auto simp: assign_def swap_def final_bindR_Some cursor_ok_def)

text \<open>A shrinking \<^verbatim>\<open>resize\<close> goes on after its overrun; the cursor it leaves is within the
  new capacity because \<^verbatim>\<open>last_\<close> has been clamped to \<^verbatim>\<open>newSize - 1\<close>.\<close>

lemma resize_ok:
  assumes "cursor_ok v" "final (resize n v h) = Some (v', h')"
  shows "cursor_ok v'"
proof -
  define k where "k = (if n = 0 then 1 else n)"
  have k: "0 < k" by (simp add: k_def)
  from assms(2) have a: "int k \<le> max_alloc"
    by (auto simp: resize_def Let_def k_def final_bindR_Some final_alloc)
  have l: "- 1 \<le> m_last v" "m_last v \<le> max_alloc"
    using assms(1) by (simp_all add: cursor_ok_def)
  have ts: "0 \<le> m_last v \<Longrightarrow> to_size_t (m_last v) = nat (m_last v)"
    using l max_alloc_pos by (intro to_size_t_id) auto
  have tl: "to_long_long (k - 1) = int k - 1"
    using a k by (subst to_long_long_id) (auto simp: of_nat_diff)
  from assms(2) have s: "m_size v' = k"
    and "m_last v' = (if 0 \<le> m_last v \<and> k \<le> to_size_t (m_last v) then to_long_long (k - 1)
                      else m_last v)"
    by (auto simp: resize_def Let_def k_def [symmetric] final_bindR_Some final_alloc
        split: if_splits)
  then have "m_last v' = (if 0 \<le> m_last v \<and> k \<le> nat (m_last v) then int k - 1 else m_last v)"
    using ts tl by (auto split: if_splits)
  with s a l k show ?thesis
    by (auto simp: cursor_ok_def split: if_splits)
qed

lemma push_back_ok:
  assumes "cursor_ok v" "final (push_back x v h) = Some (v', h')"
  shows "cursor_ok v'"
proof -
  from assms(2) obtain v1 h1 where
    s1: "final (if m_size v = to_size_t (m_last v + 1) \<or> m_size v = 0 then resize_geometric v h
          else Inr (v, h)) = Some (v1, h1)"
    and s2: "final (if to_size_t (m_last v1 + 1) < m_size v1 then
                let v2 = v1\<lparr>m_last := m_last v1 + 1\<rparr>
                in bindR (write_elem (m_ptr v2) (m_last v2) x h1) (\<lambda>h2. Inr (v2, h2))
              else Inr (v1, h1)) = Some (v', h')"
    by (auto simp: push_back_def final_bindR_Some)
  have v1: "cursor_ok v1"
    using s1 assms(1) by (auto simp: resize_geometric_def resize_ok split: if_splits)
  then have "to_size_t (m_last v1 + 1) = nat (m_last v1 + 1)"
    using max_alloc_pos by (intro to_size_t_id) (auto simp: cursor_ok_def)
  with s2 v1 show ?thesis
    by (auto simp: final_bindR_Some Let_def cursor_ok_def split: if_splits)
qed

lemma operator_plus_ok:
  assumes "cursor_ok this" "final (operator_plus add this rhs h) = Some (v, h')"
  shows "cursor_ok v"
proof (cases "m_size rhs = 0 \<or> m_size this = 0 \<or> m_last rhs \<noteq> m_last this")
  case True
  with assms(2) show ?thesis
    by (auto simp: operator_plus_def SJCVector_default_def dest: initSJCVector_ok)
next
  case False
  with assms(2) obtain r h1 where c: "final (copy_ctor this h) = Some (r, h1)"
    and v: "v = rename ''retVec'' r"
    by (auto simp: operator_plus_def final_bindR_Some Let_def)
  from copy_ctor_ok [OF assms(1) c] v show ?thesis
    by (simp add: cursor_ok_def rename_def)
qed

lemma new_object_ok:
  assumes "\<forall>v\<in>set (w_objs w). cursor_ok v" "final (new_object w r) = Some w1"
    "\<And>v h. final r = Some (v, h) \<Longrightarrow> cursor_ok v"
  shows "\<forall>v\<in>set (w_objs w1). cursor_ok v"
  using assms by (auto simp: new_object_def final_bindR_Some)

lemma set_object_ok:
  assumes "\<forall>v\<in>set (w_objs w). cursor_ok v" "final (set_object w i r) = Some w1"
    "\<And>v h. final r = Some (v, h) \<Longrightarrow> cursor_ok v"
  shows "\<forall>v\<in>set (w_objs w1). cursor_ok v"
  using assms
  by (auto simp: set_object_def final_bindR_Some dest!: set_update_subset_insert [THEN subsetD])

lemma step_ok:
  assumes "\<forall>v\<in>set (w_objs w). cursor_ok v" "final (step add c w) = Some w1"
  shows "\<forall>v\<in>set (w_objs w1). cursor_ok v"
proof (cases c)
  case (Construct n)
  with assms have n: "final (new_object w (initSJCVector n [] (w_heap w))) = Some w1"
    by (simp add: SJCVector_size_def)
  from new_object_ok [OF assms(1) n] initSJCVector_ok show ?thesis by blast
next
  case ConstructDefault
  with assms have n: "final (new_object w (initSJCVector 1 [] (w_heap w))) = Some w1"
    by (simp add: SJCVector_default_def)
  from new_object_ok [OF assms(1) n] initSJCVector_ok show ?thesis by blast
next
  case (ConstructNamed nm n)
  with assms have n: "final (new_object w (initSJCVector n nm (w_heap w))) = Some w1"
    by (simp add: SJCVector_named_def)
  from new_object_ok [OF assms(1) n] initSJCVector_ok show ?thesis by blast
next
  case (CopyConstruct j)
  with assms have j: "j < length (w_objs w)"
    and n: "final (new_object w (copy_ctor (w_objs w ! j) (w_heap w))) = Some w1"
    by (auto split: if_splits)
  from j assms(1) have "cursor_ok (w_objs w ! j)" by simp
  from new_object_ok [OF assms(1) n] copy_ctor_ok [OF this] show ?thesis by blast
next
  case (MoveConstruct j)
  with assms have j: "j < length (w_objs w)" by (auto split: if_splits)
  obtain v r where m: "move_ctor (w_objs w ! j) = (v, r)" by (cases "move_ctor (w_objs w ! j)")
  from j assms(1) have "cursor_ok (w_objs w ! j)" by simp
  note p = move_ctor_ok [OF this m]
  from assms(2) MoveConstruct j m have "w_objs w1 = (w_objs w)[j := r] @ [v]" by auto
  with p assms(1) show ?thesis
    by (auto dest!: set_update_subset_insert [THEN subsetD])
next
  case (AssignCopy i j)
  with assms have j: "j < length (w_objs w)"
    and n: "final (set_object w i (assign_copy (w_objs w ! i) (w_objs w ! j) (w_heap w))) =
              Some w1"
    by (auto split: if_splits)
  from j assms(1) have o: "cursor_ok (w_objs w ! j)" by simp
  have "\<And>v h. final (assign_copy (w_objs w ! i) (w_objs w ! j) (w_heap w)) = Some (v, h) \<Longrightarrow>
          cursor_ok v"
    using o by (auto simp: assign_copy_def final_bindR_Some dest: copy_ctor_ok assign_ok)
  from set_object_ok [OF assms(1) n this] show ?thesis .
next
  case (AssignMove i j)
  with assms have j: "j < length (w_objs w)" by (auto split: if_splits)
  obtain c r where m: "move_ctor (w_objs w ! j) = (c, r)" by (cases "move_ctor (w_objs w ! j)")
  from j assms(1) have "cursor_ok (w_objs w ! j)" by simp
  note p = move_ctor_ok [OF this m]
  define w0 where "w0 = w\<lparr>w_objs := (w_objs w)[j := r]\<rparr>"
  have w0: "\<forall>v\<in>set (w_objs w0). cursor_ok v"
    using assms(1) p(2) by (auto simp: w0_def dest!: set_update_subset_insert [THEN subsetD])
  from assms(2) AssignMove j m
  have n: "final (set_object w0 i (assign (w_objs w0 ! i) c (w_heap w0))) = Some w1"
    by (auto simp: w0_def Let_def split: if_splits)
  have "\<And>v h. final (assign (w_objs w0 ! i) c (w_heap w0)) = Some (v, h) \<Longrightarrow> cursor_ok v"
    using p(1) by (auto dest: assign_ok)
  from set_object_ok [OF w0 n this] show ?thesis .
next
  case (PushBack i x)
  with assms have i: "i < length (w_objs w)"
    and n: "final (set_object w i (push_back x (w_objs w ! i) (w_heap w))) = Some w1"
    by (auto split: if_splits)
  from i assms(1) have "cursor_ok (w_objs w ! i)" by simp
  from set_object_ok [OF assms(1) n] push_back_ok [OF this] show ?thesis by blast
next
  case (ResizeTo i n)
  with assms have i: "i < length (w_objs w)"
    and n: "final (set_object w i (resize n (w_objs w ! i) (w_heap w))) = Some w1"
    by (auto split: if_splits)
  from i assms(1) have "cursor_ok (w_objs w ! i)" by simp
  from set_object_ok [OF assms(1) n] resize_ok [OF this] show ?thesis by blast
next
  case (Swap i j)
  with assms have ij: "i < length (w_objs w)" "j < length (w_objs w)" by (auto split: if_splits)
  obtain a b where s: "swap (w_objs w ! i) (w_objs w ! j) = (a, b)"
    by (cases "swap (w_objs w ! i) (w_objs w ! j)")
  from ij assms(1) have "cursor_ok (w_objs w ! i)" "cursor_ok (w_objs w ! j)" by simp_all
  note p = swap_ok [OF this s]
  from assms(2) Swap ij s have "w_objs w1 = (w_objs w)[i := a, j := b]" by auto
  with p assms(1) show ?thesis
    by (auto dest!: set_update_subset_insert [THEN subsetD])
next
  case (ConstructPlus i j)
  with assms have i: "i < length (w_objs w)"
    and n: "final (new_object w (operator_plus add (w_objs w ! i) (w_objs w ! j) (w_heap w))) =
              Some w1"
    by (auto split: if_splits)
  from i assms(1) have "cursor_ok (w_objs w ! i)" by simp
  from new_object_ok [OF assms(1) n] operator_plus_ok [OF this] show ?thesis by blast
next
  case (AssignPlus k i j)
  with assms have i: "i < length (w_objs w)"
    and n: "final (set_object w k
          (bindR (operator_plus add (w_objs w ! i) (w_objs w ! j) (w_heap w)) (\<lambda>(c, h1).
             assign (w_objs w ! k) c h1))) = Some w1"
    by (auto split: if_splits)
  from i assms(1) have o: "cursor_ok (w_objs w ! i)" by simp
  have "\<And>v h. final (bindR (operator_plus add (w_objs w ! i) (w_objs w ! j) (w_heap w))
             (\<lambda>(c, h1). assign (w_objs w ! k) c h1)) = Some (v, h) \<Longrightarrow> cursor_ok v"
    using o by (auto simp: final_bindR_Some dest: operator_plus_ok assign_ok)
  from set_object_ok [OF assms(1) n this] show ?thesis .
qed

lemma run_ok:
  assumes "\<forall>v\<in>set (w_objs w). cursor_ok v" "final (run add cs w) = Some w1"
  shows "\<forall>v\<in>set (w_objs w1). cursor_ok v"
  using assms
proof (induction cs arbitrary: w)
  case Nil
  then show ?case by simp
next
  case (Cons c cs)
  from Cons.prems(2) obtain w0 where s: "final (step add c w) = Some w0"
    and r: "final (run add cs w0) = Some w1"
    by (auto simp: final_bindR_Some)
  from Cons.IH [OF step_ok [OF Cons.prems(1) s] r] show ?case .
qed

section \<open>Element-wise addition\<close>

lemma heap_update_same:
  assumes "lookup h r = Some rb"
  shows "h[r := Some rb] = h"
  using assms by (simp add: lookup_def list_update_same_conv split: if_splits)

lemma add_loop_result:
  fixes h :: "'a heap"
  assumes "lookup h r = Some rb" "lookup h s = Some sb" "r \<noteq> s" "0 \<le> i"
    "lst < 2 ^ 31 - 1" "lst < int (length rb)" "lst < int (length sb)"
    "\<forall>j. nat i \<le> j \<and> int j \<le> lst \<longrightarrow> add (rb ! j) (sb ! j) \<noteq> None"
  shows "add_loop add i lst (Some r) (Some s) h =
           Inr (h[r := Some (map (\<lambda>j. if nat i \<le> j \<and> int j \<le> lst
                                        then the (add (rb ! j) (sb ! j)) else rb ! j)
                               [0..<length rb])])"
  using assms
proof (induction add i lst "Some r :: addr option" "Some s :: addr option" h arbitrary: rb
    rule: add_loop.induct)
  case (1 add i lst h)
  show ?case
  proof (cases "i \<le> lst")
    case False
    then have "map (\<lambda>j. if nat i \<le> j \<and> int j \<le> lst then the (add (rb ! j) (sb ! j))
                         else rb ! j) [0..<length rb] = rb"
      by (intro nth_equalityI) auto
    with False heap_update_same [OF "1.prems"(1)] show ?thesis
      by (simp add: add_loop.simps [of add i])
  next
    case True
    define n where "n = nat i"
    have n: "n < length rb" "n < length sb" "i = int n"
      using True "1.prems"(4,6,7) by (simp_all add: n_def)
    have less: "r < length h" using "1.prems"(1) by (rule lookup_Some_less)
    have ni: "nat i \<le> n" "int n \<le> lst"
      using True "1.prems"(4) by (simp_all add: n_def)
    with "1.prems"(8) obtain z where z: "add (rb ! n) (sb ! n) = Some z"
      by (cases "add (rb ! n) (sb ! n)") auto
    define rb1 where "rb1 = rb[n := z]"
    define h1 where "h1 = h[r := Some rb1]"
    have rd: "read_elem (Some s) i h = (Inr (sb ! n) :: 'a heap fault + 'a)"
      "read_elem (Some r) i h = (Inr (rb ! n) :: 'a heap fault + 'a)"
      using "1.prems"(1,2) n by (simp_all add: read_elem_def)
    have wr: "write_elem (Some r) i z h = Inr h1"
      using "1.prems"(1) n by (simp add: write_elem_def h1_def rb1_def)
    have ne: "i \<noteq> 2 ^ 31 - 1" using True "1.prems"(5) by simp
    have l1: "lookup h1 r = Some rb1" "lookup h1 s = Some sb"
      using less "1.prems"(2,3) by (simp_all add: h1_def)
    have d: "\<forall>j. nat (i + 1) \<le> j \<and> int j \<le> lst \<longrightarrow> add (rb1 ! j) (sb ! j) \<noteq> None"
      using "1.prems"(4,8) n(3) by (auto simp: rb1_def nth_list_update)
    have "add_loop add (i + 1) lst (Some r) (Some s) h1 =
           Inr (h1[r := Some (map (\<lambda>j. if nat (i + 1) \<le> j \<and> int j \<le> lst
                                         then the (add (rb1 ! j) (sb ! j)) else rb1 ! j)
                                [0..<length rb1])])"
      using "1.prems"(3,4,5,6,7) d
      by (intro "1.hyps" [OF True rd(1) rd(2) z wr ne l1]) (simp_all add: rb1_def)
    moreover have "map (\<lambda>j. if nat (i + 1) \<le> j \<and> int j \<le> lst
                             then the (add (rb1 ! j) (sb ! j)) else rb1 ! j) [0..<length rb1] =
          map (\<lambda>j. if nat i \<le> j \<and> int j \<le> lst then the (add (rb ! j) (sb ! j)) else rb ! j)
            [0..<length rb]"
      using n True z by (intro nth_equalityI) (auto simp: rb1_def nth_list_update)
    ultimately show ?thesis
      using True rd z wr ne by (simp add: add_loop.simps [of add i] h1_def)
  qed
qed

lemma add_loop_overflow:
  fixes h :: "'a heap"
  assumes "lookup h r = Some rb" "lookup h s = Some sb" "r \<noteq> s" "0 \<le> i"
    "lst < int (length rb)" "lst < int (length sb)"
    "(\<exists>j. nat i \<le> j \<and> int j \<le> lst \<and> add (rb ! j) (sb ! j) = None) \<or>
     i \<le> 2 ^ 31 - 1 \<and> 2 ^ 31 - 1 \<le> lst"
  shows "add_loop add i lst (Some r) (Some s) h = Inl SignedOverflow"
  using assms
proof (induction add i lst "Some r :: addr option" "Some s :: addr option" h arbitrary: rb
    rule: add_loop.induct)
  case (1 add i lst h)
  have le: "i \<le> lst" using "1.prems"(4,7) by auto
  define n where "n = nat i"
  have n: "n < length rb" "n < length sb" "i = int n"
    using le "1.prems"(4,5,6) by (simp_all add: n_def)
  have less: "r < length h" using "1.prems"(1) by (rule lookup_Some_less)
  have rd: "read_elem (Some s) i h = (Inr (sb ! n) :: 'a heap fault + 'a)"
    "read_elem (Some r) i h = (Inr (rb ! n) :: 'a heap fault + 'a)"
    using "1.prems"(1,2) n by (simp_all add: read_elem_def)
  show ?case
  proof (cases "add (rb ! n) (sb ! n)")
    case None
    show ?thesis
      by (subst add_loop.simps) (use le rd None in simp)
  next
    case (Some z)
    define rb1 where "rb1 = rb[n := z]"
    define h1 where "h1 = h[r := Some rb1]"
    have wr: "write_elem (Some r) i z h = Inr h1"
      using "1.prems"(1) n by (simp add: write_elem_def h1_def rb1_def)
    show ?thesis
    proof (cases "i = 2 ^ 31 - 1")
      case True
      show ?thesis
        by (subst add_loop.simps) (use True le rd Some wr in simp)
    next
      case False
      have l1: "lookup h1 r = Some rb1" "lookup h1 s = Some sb"
        using less "1.prems"(2,3) by (simp_all add: h1_def)
      have d: "(\<exists>j. nat (i + 1) \<le> j \<and> int j \<le> lst \<and> add (rb1 ! j) (sb ! j) = None) \<or>
               i + 1 \<le> 2 ^ 31 - 1 \<and> 2 ^ 31 - 1 \<le> lst"
      proof (cases "\<exists>j. nat i \<le> j \<and> int j \<le> lst \<and> add (rb ! j) (sb ! j) = None")
        case True
        then obtain j where j: "nat i \<le> j" "int j \<le> lst" "add (rb ! j) (sb ! j) = None"
          by blast
        with Some have "j \<noteq> n" by auto
        with j(1) "1.prems"(4) have "nat (i + 1) \<le> j" "rb1 ! j = rb ! j"
          by (auto simp: n_def rb1_def)
        with j(2,3) show ?thesis by auto
      next
        case nex: False
        with "1.prems"(7) False show ?thesis by auto
      qed
      have "add_loop add (i + 1) lst (Some r) (Some s) h1 = Inl SignedOverflow"
        using "1.prems"(3,4,5,6) d
        by (intro "1.hyps" [OF le rd(1) rd(2) Some wr False l1]) (simp_all add: rb1_def)
      with le rd Some wr False show ?thesis by (simp add: add_loop.simps [of add i])
    qed
  qed
qed

lemma take_sums:
  assumes "n \<le> length rb" "n \<le> length sb" "int n = lst + 1"
    "\<forall>j<n. add (rb ! j) (sb ! j) \<noteq> None"
  shows "map Some (take n (map (\<lambda>j. if nat 0 \<le> j \<and> int j \<le> lst
                                      then the (add (rb ! j) (sb ! j)) else rb ! j)
                             [0..<length rb])) =
         map2 add (take n rb) (take n sb)"
  using assms by (intro nth_equalityI) auto

lemma sums_defined:
  assumes "n \<le> length rb" "n \<le> length sb"
  shows "None \<notin> set (map2 add (take n rb) (take n sb)) \<longleftrightarrow>
         (\<forall>j<n. add (rb ! j) (sb ! j) \<noteq> None)"
proof
  assume a: "None \<notin> set (map2 add (take n rb) (take n sb))"
  show "\<forall>j<n. add (rb ! j) (sb ! j) \<noteq> None"
  proof (intro allI impI)
    fix j assume j: "j < n"
    with assms have "map2 add (take n rb) (take n sb) ! j = add (rb ! j) (sb ! j)"
      "j < length (map2 add (take n rb) (take n sb))" by simp_all
    with a nth_mem [of j "map2 add (take n rb) (take n sb)"]
    show "add (rb ! j) (sb ! j) \<noteq> None" by metis
  qed
next
  assume a: "\<forall>j<n. add (rb ! j) (sb ! j) \<noteq> None"
  show "None \<notin> set (map2 add (take n rb) (take n sb))"
  proof
    assume "None \<in> set (map2 add (take n rb) (take n sb))"
    then obtain j where j: "j < length (map2 add (take n rb) (take n sb))"
      "map2 add (take n rb) (take n sb) ! j = None"
      by (auto simp: in_set_conv_nth)
    with assms have "j < n" "add (rb ! j) (sb ! j) = None" by simp_all
    with a show False by auto
  qed
qed

lemma sums_undefined:
  assumes "n \<le> length rb" "n \<le> length sb"
  shows "None \<in> set (map2 add (take n rb) (take n sb)) \<longleftrightarrow>
         (\<exists>j<n. add (rb ! j) (sb ! j) = None)"
proof -
  have a: "(\<exists>j<n. add (rb ! j) (sb ! j) = None) \<longleftrightarrow> \<not> (\<forall>j<n. add (rb ! j) (sb ! j) \<noteq> None)"
    by auto
  show ?thesis
    unfolding a sums_defined [OF assms, of add, symmetric] by simp
qed

lemma valid_vec_array:
  assumes "valid_vec v h" "m_size v \<noteq> 0"
  shows "\<exists>a. m_ptr v = Some a \<and> a < length h \<and> lookup h a = Some (array_of v h) \<and>
           length (array_of v h) = m_size v \<and>
           contents v h = take (nat (m_last v + 1)) (array_of v h)"
proof -
  from assms obtain a where a: "m_ptr v = Some a"
    by (cases "m_ptr v") (auto simp: valid_vec_def)
  from valid_vec_ptr [OF assms(1) a] a lookup_Some_less [of h a] show ?thesis
    by (auto simp: array_of_def contents_def)
qed

text \<open>The two operators with non-empty operands of equal \<^verbatim>\<open>last_\<close>: the copy, then the
  loop.\<close>

lemma operator_plus_loop:
  assumes "valid_vec A h" "valid_vec B h" "0 \<le> m_last A" "m_last B = m_last A"
  shows "operator_plus add A B h =
           bindR (add_loop add 0 (m_last A) (Some (length h)) (m_ptr B)
                    (h @ [Some (array_of A h)]))
             (\<lambda>h2. Inr (\<lparr>m_ptr = Some (length h), m_size = m_size A, m_first = Some 0,
                           m_last = m_last A, m_name = ''retVec''\<rparr>, h2))"
proof -
  note da = valid_vecD [OF assms(1)] and db = valid_vecD [OF assms(2)]
  have nz: "m_size A \<noteq> 0" "m_size B \<noteq> 0" using da db assms(3,4) by auto
  then show ?thesis
    using assms(4)
    by (simp add: operator_plus_def copy_ctor_valid [OF assms(1)] rename_def Let_def)
qed

lemma operator_plus_raw_loop:
  assumes "valid_vec A h" "valid_vec B h" "0 \<le> m_last A" "m_last B = m_last A"
  shows "operator_plus_raw add A B h =
           bindR (add_loop add 0 (m_last A) (Some (length h)) (m_ptr A)
                    (h @ [Some (contents B h)]))
             (\<lambda>h2. Inr (\<lparr>m_ptr = Some (length h), m_size = nat (m_last A + 1), m_first = None,
                           m_last = m_last A, m_name = ''retVec''\<rparr>, h2))"
proof -
  note da = valid_vecD [OF assms(1)] and db = valid_vecD [OF assms(2)]
  have nz: "m_size A \<noteq> 0" "m_size B \<noteq> 0" using da db assms(3,4) by auto
  then show ?thesis
    using assms(4)
    by (simp add: operator_plus_raw_def copy_ctor_raw_valid [OF assms(2)] rename_def Let_def)
qed

lemma plus_adds_slots:
  fixes h :: "'a::zero heap"
  assumes "valid_vec A h" "valid_vec B h" "0 \<le> m_last A" "m_last B = m_last A"
    "m_last A < 2 ^ 31 - 1" "None \<notin> set (map2 add (contents A h) (contents B h))"
  shows "\<exists>R h'. operator_plus add A B h = Inr (R, h') \<and> m_ptr R = Some (length h) \<and>
           m_last R = m_last A \<and> m_size R = m_size A \<and> valid_vec R h' \<and>
           map Some (contents R h') = map2 add (contents A h) (contents B h) \<and>
           length h' = Suc (length h) \<and> (\<forall>b<length h. lookup h' b = lookup h b)"
proof -
  note da = valid_vecD [OF assms(1)] and db = valid_vecD [OF assms(2)]
  have nz: "m_size A \<noteq> 0" "m_size B \<noteq> 0" using da db assms(3,4) by auto
  from valid_vec_array [OF assms(1) nz(1)] obtain a where
    a: "m_ptr A = Some a" "a < length h" "lookup h a = Some (array_of A h)"
    "length (array_of A h) = m_size A"
    "contents A h = take (nat (m_last A + 1)) (array_of A h)" by blast
  from valid_vec_array [OF assms(2) nz(2)] obtain s where
    s: "m_ptr B = Some s" "s < length h" "lookup h s = Some (array_of B h)"
    "length (array_of B h) = m_size B"
    "contents B h = take (nat (m_last B + 1)) (array_of B h)" by blast
  define rb where "rb = array_of A h"
  define sb where "sb = array_of B h"
  define h1 where "h1 = h @ [Some rb]"
  define R where "R = \<lparr>m_ptr = Some (length h), m_size = m_size A, m_first = Some 0,
                 m_last = m_last A, m_name = ''retVec''\<rparr>"
  define out where "out = map (\<lambda>j. if nat 0 \<le> j \<and> int j \<le> m_last A
                                    then the (add (rb ! j) (sb ! j)) else rb ! j)
                            [0..<length rb]"
  define h2 where "h2 = h1[length h := Some out]"
  define n where "n = nat (m_last A + 1)"
  have n: "n \<le> length rb" "n \<le> length sb" "int n = m_last A + 1"
    using da db assms(3,4) a(4) s(4) by (simp_all add: n_def rb_def sb_def)
  have c: "contents A h = take n rb" "contents B h = take n sb"
    using a(5) s(5) assms(4) by (simp_all add: n_def rb_def sb_def)
  have df: "\<forall>j<n. add (rb ! j) (sb ! j) \<noteq> None"
    using assms(6) unfolding c sums_defined [OF n(1,2)] .
  have df': "\<forall>j. nat 0 \<le> j \<and> int j \<le> m_last A \<longrightarrow> add (rb ! j) (sb ! j) \<noteq> None"
    using df n(3) by auto
  have l1: "lookup h1 (length h) = Some rb" "lookup h1 s = Some sb" "length h \<noteq> s"
    using s(2,3) by (simp_all add: h1_def sb_def)
  have "add_loop add 0 (m_last A) (Some (length h)) (Some s) h1 = Inr h2"
    unfolding h2_def out_def using da db assms(4,5) a(4) s(4) df'
    by (intro add_loop_result [OF l1]) (simp_all add: rb_def sb_def)
  then have op: "operator_plus add A B h = Inr (R, h2)"
    unfolding operator_plus_loop [OF assms(1,2,3,4)]
    by (simp add: s(1) rb_def [symmetric] h1_def [symmetric] R_def)
  have lo: "lookup h2 (length h) = Some out" "length out = m_size A"
    by (simp_all add: h2_def h1_def out_def rb_def a(4))
  have "contents R h2 = take n out"
    using lo by (simp add: contents_def R_def n_def)
  then have "map Some (contents R h2) = map2 add (take n rb) (take n sb)"
    unfolding out_def using take_sums [OF n df] by simp
  then have cr: "map Some (contents R h2) = map2 add (contents A h) (contents B h)"
    by (simp add: c)
  have v: "valid_vec R h2"
    using lo da by (simp add: valid_vec_def R_def)
  have f: "\<forall>b<length h. lookup h2 b = lookup h b"
    by (simp add: h2_def h1_def)
  have "length h2 = Suc (length h)" by (simp add: h2_def h1_def)
  with op cr v f show ?thesis by (simp add: R_def)
qed

lemma plus_raw_adds_slots:
  fixes h :: "'a::zero heap"
  assumes "valid_vec A h" "valid_vec B h" "0 \<le> m_last A" "m_last B = m_last A"
    "m_last A < 2 ^ 31 - 1" "None \<notin> set (map2 add (contents B h) (contents A h))"
  shows "\<exists>R h'. operator_plus_raw add A B h = Inr (R, h') \<and> m_ptr R = Some (length h) \<and>
           m_last R = m_last A \<and> valid_vec R h' \<and>
           map Some (contents R h') = map2 add (contents B h) (contents A h) \<and>
           length h' = Suc (length h) \<and> (\<forall>b<length h. lookup h' b = lookup h b)"
proof -
  note da = valid_vecD [OF assms(1)] and db = valid_vecD [OF assms(2)]
  have nz: "m_size A \<noteq> 0" "m_size B \<noteq> 0" using da db assms(3,4) by auto
  from valid_vec_array [OF assms(1) nz(1)] obtain a where
    a: "m_ptr A = Some a" "a < length h" "lookup h a = Some (array_of A h)"
    "length (array_of A h) = m_size A"
    "contents A h = take (nat (m_last A + 1)) (array_of A h)" by blast
  define n where "n = nat (m_last A + 1)"
  define rb where "rb = contents B h"
  define sb where "sb = array_of A h"
  define h1 where "h1 = h @ [Some rb]"
  define R where "R = \<lparr>m_ptr = Some (length h), m_size = n, m_first = None,
                 m_last = m_last A, m_name = ''retVec''\<rparr>"
  define out where "out = map (\<lambda>j. if nat 0 \<le> j \<and> int j \<le> m_last A
                                    then the (add (rb ! j) (sb ! j)) else rb ! j)
                            [0..<length rb]"
  define h2 where "h2 = h1[length h := Some out]"
  have lr: "length rb = n"
    using assms(2,4) by (auto simp: rb_def n_def contents_def valid_vec_def split: option.splits)
  have n: "n \<le> length rb" "n \<le> length sb" "int n = m_last A + 1"
    using da assms(3) a(4) lr by (simp_all add: n_def sb_def)
  have c: "contents B h = take n rb" "contents A h = take n sb"
    using a(5) lr by (simp_all add: n_def rb_def sb_def)
  have df: "\<forall>j<n. add (rb ! j) (sb ! j) \<noteq> None"
    using assms(6) unfolding c sums_defined [OF n(1,2)] .
  have df': "\<forall>j. nat 0 \<le> j \<and> int j \<le> m_last A \<longrightarrow> add (rb ! j) (sb ! j) \<noteq> None"
    using df n(3) by auto
  have l1: "lookup h1 (length h) = Some rb" "lookup h1 a = Some sb" "length h \<noteq> a"
    using a(2,3) by (simp_all add: h1_def sb_def)
  have "add_loop add 0 (m_last A) (Some (length h)) (Some a) h1 = Inr h2"
    unfolding h2_def out_def using n assms(5) df'
    by (intro add_loop_result [OF l1]) simp_all
  then have op: "operator_plus_raw add A B h = Inr (R, h2)"
    unfolding operator_plus_raw_loop [OF assms(1,2,3,4)]
    by (simp add: a(1) rb_def [symmetric] h1_def [symmetric] R_def n_def)
  have lo: "lookup h2 (length h) = Some out" "length out = n"
    by (simp_all add: h2_def h1_def out_def lr)
  have "contents R h2 = take n out"
    using lo by (simp add: contents_def R_def n_def)
  then have "map Some (contents R h2) = map2 add (take n rb) (take n sb)"
    unfolding out_def using take_sums [OF n df] by simp
  then have cr: "map Some (contents R h2) = map2 add (contents B h) (contents A h)"
    by (simp add: c)
  have v: "valid_vec R h2"
    using lo da n(3) assms(3) by (simp add: valid_vec_def R_def)
  have f: "\<forall>b<length h. lookup h2 b = lookup h b"
    by (simp add: h2_def h1_def)
  have "length h2 = Suc (length h)" by (simp add: h2_def h1_def)
  with op cr v f show ?thesis by (simp add: R_def)
qed

lemma plus_overflows:
  fixes h :: "'a::zero heap"
  assumes "valid_vec A h" "valid_vec B h" "0 \<le> m_last A" "m_last B = m_last A"
    "2 ^ 31 - 1 \<le> m_last A \<or> None \<in> set (map2 add (contents A h) (contents B h))"
  shows "operator_plus add A B h = Inl SignedOverflow"
proof -
  note da = valid_vecD [OF assms(1)] and db = valid_vecD [OF assms(2)]
  have nz: "m_size A \<noteq> 0" "m_size B \<noteq> 0" using da db assms(3,4) by auto
  from valid_vec_array [OF assms(1) nz(1)] obtain a where
    a: "m_ptr A = Some a" "a < length h" "lookup h a = Some (array_of A h)"
    "length (array_of A h) = m_size A"
    "contents A h = take (nat (m_last A + 1)) (array_of A h)" by blast
  from valid_vec_array [OF assms(2) nz(2)] obtain s where
    s: "m_ptr B = Some s" "s < length h" "lookup h s = Some (array_of B h)"
    "length (array_of B h) = m_size B"
    "contents B h = take (nat (m_last B + 1)) (array_of B h)" by blast
  define rb where "rb = array_of A h"
  define sb where "sb = array_of B h"
  define h1 where "h1 = h @ [Some rb]"
  define n where "n = nat (m_last A + 1)"
  have n: "n \<le> length rb" "n \<le> length sb" "int n = m_last A + 1"
    using da db assms(3,4) a(4) s(4) by (simp_all add: n_def rb_def sb_def)
  have c: "contents A h = take n rb" "contents B h = take n sb"
    using a(5) s(5) assms(4) by (simp_all add: n_def rb_def sb_def)
  have "(\<exists>j<n. add (rb ! j) (sb ! j) = None) \<or> 2 ^ 31 - 1 \<le> m_last A"
    using assms(5) unfolding c sums_undefined [OF n(1,2)] by auto
  then have d: "(\<exists>j. nat 0 \<le> j \<and> int j \<le> m_last A \<and> add (rb ! j) (sb ! j) = None) \<or>
                0 \<le> (2::int) ^ 31 - 1 \<and> 2 ^ 31 - 1 \<le> m_last A"
  proof
    assume "\<exists>j<n. add (rb ! j) (sb ! j) = None"
    then obtain j where j: "j < n" "add (rb ! j) (sb ! j) = None" by blast
    with n(3) have "int j \<le> m_last A" by simp
    with j(2) show ?thesis by auto
  next
    assume "2 ^ 31 - 1 \<le> m_last A"
    then show ?thesis by simp
  qed
  have l1: "lookup h1 (length h) = Some rb" "lookup h1 s = Some sb" "length h \<noteq> s"
    using s(2,3) by (simp_all add: h1_def sb_def)
  have "add_loop add 0 (m_last A) (Some (length h)) (Some s) h1 = Inl SignedOverflow"
    using da db assms(4) a(4) s(4) d
    by (intro add_loop_overflow [OF l1]) (simp_all add: rb_def sb_def)
  then show ?thesis
    unfolding operator_plus_loop [OF assms(1,2,3,4)]
    by (simp add: s(1) rb_def [symmetric] h1_def [symmetric])
qed

lemma plus_raw_overflows:
  fixes h :: "'a::zero heap"
  assumes "valid_vec A h" "valid_vec B h" "0 \<le> m_last A" "m_last B = m_last A"
    "2 ^ 31 - 1 \<le> m_last A \<or> None \<in> set (map2 add (contents B h) (contents A h))"
  shows "operator_plus_raw add A B h = Inl SignedOverflow"
proof -
  note da = valid_vecD [OF assms(1)] and db = valid_vecD [OF assms(2)]
  have nz: "m_size A \<noteq> 0" "m_size B \<noteq> 0" using da db assms(3,4) by auto
  from valid_vec_array [OF assms(1) nz(1)] obtain a where
    a: "m_ptr A = Some a" "a < length h" "lookup h a = Some (array_of A h)"
    "length (array_of A h) = m_size A"
    "contents A h = take (nat (m_last A + 1)) (array_of A h)" by blast
  define n where "n = nat (m_last A + 1)"
  define rb where "rb = contents B h"
  define sb where "sb = array_of A h"
  define h1 where "h1 = h @ [Some rb]"
  have lr: "length rb = n"
    using assms(2,4) by (auto simp: rb_def n_def contents_def valid_vec_def split: option.splits)
  have n: "n \<le> length rb" "n \<le> length sb" "int n = m_last A + 1"
    using da assms(3) a(4) lr by (simp_all add: n_def sb_def)
  have c: "contents B h = take n rb" "contents A h = take n sb"
    using a(5) lr by (simp_all add: n_def rb_def sb_def)
  have "(\<exists>j<n. add (rb ! j) (sb ! j) = None) \<or> 2 ^ 31 - 1 \<le> m_last A"
    using assms(5) unfolding c sums_undefined [OF n(1,2)] by auto
  then have d: "(\<exists>j. nat 0 \<le> j \<and> int j \<le> m_last A \<and> add (rb ! j) (sb ! j) = None) \<or>
                0 \<le> (2::int) ^ 31 - 1 \<and> 2 ^ 31 - 1 \<le> m_last A"
  proof
    assume "\<exists>j<n. add (rb ! j) (sb ! j) = None"
    then obtain j where j: "j < n" "add (rb ! j) (sb ! j) = None" by blast
    with n(3) have "int j \<le> m_last A" by simp
    with j(2) show ?thesis by auto
  next
    assume "2 ^ 31 - 1 \<le> m_last A"
    then show ?thesis by simp
  qed
  have l1: "lookup h1 (length h) = Some rb" "lookup h1 a = Some sb" "length h \<noteq> a"
    using a(2,3) by (simp_all add: h1_def sb_def)
  have "add_loop add 0 (m_last A) (Some (length h)) (Some a) h1 = Inl SignedOverflow"
    using n d
    by (intro add_loop_overflow [OF l1]) simp_all
  then show ?thesis
    unfolding operator_plus_raw_loop [OF assms(1,2,3,4)]
    by (simp add: a(1) rb_def [symmetric] h1_def [symmetric])
qed

lemma operator_plus_empty:
  fixes h :: "'a::zero heap"
  assumes "valid_vec A h" "valid_vec B h"
    "m_last A = - 1 \<or> m_last B = - 1 \<or> m_last B \<noteq> m_last A"
  shows "\<exists>R h'. operator_plus add A B h = Inr (R, h') \<and> m_last R = - 1 \<and>
           contents R h' = [] \<and>
           m_size R = (if m_size B = 0 \<or> m_size A = 0 \<or> m_last B \<noteq> m_last A then 1
                       else m_size A)"
proof (cases "m_size B = 0 \<or> m_size A = 0 \<or> m_last B \<noteq> m_last A")
  case True
  then show ?thesis
    using max_alloc_pos
    by (auto simp: operator_plus_def SJCVector_default_def initSJCVector_def alloc_def
        emptyVec_def contents_def max_alloc_def)
next
  case False
  with assms(3) have l: "m_last A = - 1" "m_last B = - 1" by auto
  have "add_loop add 0 (- 1) (Some (length h)) (m_ptr B) (h @ [Some (array_of A h)]) =
          Inr (h @ [Some (array_of A h)])"
    by (subst add_loop.simps) simp
  with False l show ?thesis
    by (simp add: operator_plus_def copy_ctor_valid [OF assms(1)] rename_def Let_def
        contents_def)
qed

lemma operator_plus_raw_empty:
  fixes h :: "'a::zero heap"
  assumes "valid_vec A h" "valid_vec B h"
    "m_last A = - 1 \<or> m_last B = - 1 \<or> m_last B \<noteq> m_last A"
  shows "\<exists>R h'. operator_plus_raw add A B h = Inr (R, h') \<and> m_last R = - 1 \<and>
           contents R h' = [] \<and> m_size R = 0"
proof (cases "m_size B = 0 \<or> m_size A = 0 \<or> m_last B \<noteq> m_last A")
  case True
  then show ?thesis
    by (auto simp: operator_plus_raw_def SJCVector_default_raw_def contents_def)
next
  case False
  with assms(3) have l: "m_last A = - 1" "m_last B = - 1" by auto
  have "add_loop add 0 (- 1) (Some (length h)) (m_ptr A) (h @ [Some (contents B h)]) =
          Inr (h @ [Some (contents B h)])"
    by (subst add_loop.simps) simp
  with False l show ?thesis
    by (simp add: operator_plus_raw_def copy_ctor_raw_valid [OF assms(2)] rename_def Let_def
        contents_def)
qed

lemma fresh_result_independent:
  assumes "valid_vec A h" "valid_vec R h'" "m_ptr R = Some (length h)"
    "\<forall>b<length h. lookup h' b = lookup h b"
  shows "valid_vec A h'" "contents A h' = contents A h" "separate A R"
proof -
  have f: "\<And>b. m_ptr A = Some b \<Longrightarrow> lookup h' b = lookup h b"
    using assms(4) valid_vec_less [OF assms(1)] by simp
  from valid_vec_frame [OF assms(1) f]
  show "valid_vec A h'" "contents A h' = contents A h" by simp_all
  show "separate A R"
    using assms(3) valid_vec_not_fresh [OF assms(1)] by (auto simp: separate_def)
qed


text \<open>
  C2, as the specification states it, has \<^verbatim>\<open>operator+\<close> return the empty default container
  whenever an operand is empty, and has slot \<open>i\<close> of the sum hold \<open>A[i] + B[i]\<close>.  The guard
  of \<^verbatim>\<open>operator+\<close> asks for a capacity of 0, not for an empty operand: for two empty
  containers of capacity 5 the \<^verbatim>\<open>unique_ptr\<close> variant returns an empty copy of the left
  operand, with capacity 5 and the label \<^verbatim>\<open>retVec\<close>, where the default constructor gives
  capacity 1.  And the raw-pointer variant adds the left operand to a copy of the right
  one: for strings, slot 0 of \<open>[F] + [G]\<close> is \<open>GF\<close>.
\<close>

theorem operator_plus_claim_counterexample:
  "occupied \<lparr>m_ptr = Some 0, m_size = 5, m_first = Some 0, m_last = - 1, m_name = ''a''\<rparr> = 0 \<and>
   operator_plus int_plus
     \<lparr>m_ptr = Some 0, m_size = 5, m_first = Some 0, m_last = - 1, m_name = ''a''\<rparr>
     \<lparr>m_ptr = Some 1, m_size = 5, m_first = Some 0, m_last = - 1, m_name = ''b''\<rparr>
     [Some [0, 0, 0, 0, 0], Some [0, 0, 0, 0, 0]] =
     Inr (\<lparr>m_ptr = Some 2, m_size = 5, m_first = Some 0, m_last = - 1, m_name = ''retVec''\<rparr>,
          [Some [0, 0, 0, 0, 0], Some [0, 0, 0, 0, 0], Some [0, 0, 0, 0, 0]]) \<and>
   SJCVector_default [Some [0::int, 0, 0, 0, 0], Some [0, 0, 0, 0, 0]] =
     Inr (\<lparr>m_ptr = Some 2, m_size = 1, m_first = Some 0, m_last = - 1, m_name = []\<rparr>,
          [Some [0, 0, 0, 0, 0], Some [0, 0, 0, 0, 0], Some [0]]) \<and>
   operator_plus int_plus
     \<lparr>m_ptr = Some 0, m_size = 5, m_first = Some 0, m_last = - 1, m_name = ''a''\<rparr>
     \<lparr>m_ptr = Some 1, m_size = 5, m_first = Some 0, m_last = - 1, m_name = ''b''\<rparr>
     [Some [0, 0, 0, 0, 0], Some [0, 0, 0, 0, 0]] \<noteq>
   SJCVector_default [Some [0::int, 0, 0, 0, 0], Some [0, 0, 0, 0, 0]] \<and>
   operator_plus_raw string_plus
     \<lparr>m_ptr = Some 0, m_size = 1, m_first = Some 0, m_last = 0, m_name = ''a''\<rparr>
     \<lparr>m_ptr = Some 1, m_size = 1, m_first = Some 0, m_last = 0, m_name = ''b''\<rparr>
     [Some [''F''], Some [''G'']] =
     Inr (\<lparr>m_ptr = Some 2, m_size = 1, m_first = None, m_last = 0, m_name = ''retVec''\<rparr>,
          [Some [''F''], Some [''G''], Some [''GF'']]) \<and>
   string_plus ''F'' ''G'' \<noteq> Some ''GF''"
  by code_simp

text \<open>
  C2, amended.  The sum of two elements is the \<^verbatim>\<open>+\<close> of the element type, \<open>add\<close>.  For two
  valid containers \<open>A\<close> and \<open>B\<close> that are both non-empty and have equal \<open>lastIndex\<close>, below the
  largest \<^verbatim>\<open>int\<close>, and such that the sum of the two elements in each slot is defined,
  \<^verbatim>\<open>operator+\<close> returns a new container with an array of its own: its \<open>lastIndex\<close> is that of
  the operands; slot \<open>i\<close> holds \<open>A[i] + B[i]\<close> in the \<^verbatim>\<open>unique_ptr\<close> variant and
  \<open>B[i] + A[i]\<close> in the raw-pointer variant; the operands are unchanged, neither points to
  the array of the result, and no run of \<^verbatim>\<open>push_back\<close> and \<^verbatim>\<open>resize\<close> calls on the result
  that returns changes them.  When a sum in some slot is undefined, as it is for two \<^verbatim>\<open>int\<close>
  whose sum does not fit, or \<open>lastIndex\<close> is the largest \<^verbatim>\<open>int\<close> or more, the call has
  undefined behaviour.  If an operand is empty or the \<open>lastIndex\<close> values differ, it
  returns, without a fault, an empty container: the default container when an operand has
  capacity 0 or the \<open>lastIndex\<close> values differ, and otherwise an empty copy of an operand
  (of the left one, with its capacity, in the \<^verbatim>\<open>unique_ptr\<close> variant; of the right one,
  with capacity 0, in the raw-pointer variant).
\<close>

theorem operator_plus_sum:
  fixes h :: "'a::zero heap"
  shows "(valid_vec A h \<and> valid_vec B h \<and> 0 \<le> m_last A \<and> m_last B = m_last A \<and>
          m_last A < 2 ^ 31 - 1 \<and> None \<notin> set (map2 add (contents A h) (contents B h)) \<longrightarrow>
            (\<exists>R h'. operator_plus add A B h = Inr (R, h') \<and> m_last R = m_last A \<and>
               map Some (contents R h') = map2 add (contents A h) (contents B h) \<and>
               m_ptr R = Some (length h) \<and> separate A R \<and> separate B R \<and>
               contents A h' = contents A h \<and> contents B h' = contents B h \<and>
               (\<forall>ms R' h2. mutate_all ms R h' = Inr (R', h2) \<longrightarrow>
                  contents A h2 = contents A h \<and> contents B h2 = contents B h))) \<and>
         (valid_vec A h \<and> valid_vec B h \<and> 0 \<le> m_last A \<and> m_last B = m_last A \<and>
          (2 ^ 31 - 1 \<le> m_last A \<or> None \<in> set (map2 add (contents A h) (contents B h))) \<longrightarrow>
            operator_plus add A B h = Inl SignedOverflow) \<and>
         (valid_vec A h \<and> valid_vec B h \<and>
          (occupied A = 0 \<or> occupied B = 0 \<or> m_last B \<noteq> m_last A) \<longrightarrow>
            (\<exists>R h'. operator_plus add A B h = Inr (R, h') \<and> occupied R = 0 \<and>
               contents R h' = [] \<and>
               m_size R = (if m_size B = 0 \<or> m_size A = 0 \<or> m_last B \<noteq> m_last A then 1
                           else m_size A)) \<and>
            (m_size B = 0 \<or> m_size A = 0 \<or> m_last B \<noteq> m_last A \<longrightarrow>
               operator_plus add A B h = SJCVector_default h)) \<and>
         (valid_vec A h \<and> valid_vec B h \<and> 0 \<le> m_last A \<and> m_last B = m_last A \<and>
          m_last A < 2 ^ 31 - 1 \<and> None \<notin> set (map2 add (contents B h) (contents A h)) \<longrightarrow>
            (\<exists>R h'. operator_plus_raw add A B h = Inr (R, h') \<and> m_last R = m_last A \<and>
               map Some (contents R h') = map2 add (contents B h) (contents A h) \<and>
               m_ptr R = Some (length h) \<and> separate A R \<and> separate B R \<and>
               contents A h' = contents A h \<and> contents B h' = contents B h \<and>
               (\<forall>ms R' h2. mutate_all_raw ms R h' = Inr (R', h2) \<longrightarrow>
                  contents A h2 = contents A h \<and> contents B h2 = contents B h))) \<and>
         (valid_vec A h \<and> valid_vec B h \<and> 0 \<le> m_last A \<and> m_last B = m_last A \<and>
          (2 ^ 31 - 1 \<le> m_last A \<or> None \<in> set (map2 add (contents B h) (contents A h))) \<longrightarrow>
            operator_plus_raw add A B h = Inl SignedOverflow) \<and>
         (valid_vec A h \<and> valid_vec B h \<and>
          (occupied A = 0 \<or> occupied B = 0 \<or> m_last B \<noteq> m_last A) \<longrightarrow>
            (\<exists>R h'. operator_plus_raw add A B h = Inr (R, h') \<and> occupied R = 0 \<and>
               contents R h' = [] \<and> m_size R = 0))"
proof -
  have 1: "valid_vec A h \<and> valid_vec B h \<and> 0 \<le> m_last A \<and> m_last B = m_last A \<and>
          m_last A < 2 ^ 31 - 1 \<and> None \<notin> set (map2 add (contents A h) (contents B h)) \<longrightarrow>
            (\<exists>R h'. operator_plus add A B h = Inr (R, h') \<and> m_last R = m_last A \<and>
               map Some (contents R h') = map2 add (contents A h) (contents B h) \<and>
               m_ptr R = Some (length h) \<and> separate A R \<and> separate B R \<and>
               contents A h' = contents A h \<and> contents B h' = contents B h \<and>
               (\<forall>ms R' h2. mutate_all ms R h' = Inr (R', h2) \<longrightarrow>
                  contents A h2 = contents A h \<and> contents B h2 = contents B h))"
  proof
    assume a: "valid_vec A h \<and> valid_vec B h \<and> 0 \<le> m_last A \<and> m_last B = m_last A \<and>
          m_last A < 2 ^ 31 - 1 \<and> None \<notin> set (map2 add (contents A h) (contents B h))"
    then have va: "valid_vec A h" and vb: "valid_vec B h" by simp_all
    from a plus_adds_slots [OF va vb, of add] obtain R h' where
      r: "operator_plus add A B h = Inr (R, h')" "m_ptr R = Some (length h)"
      "m_last R = m_last A" "valid_vec R h'"
      "map Some (contents R h') = map2 add (contents A h) (contents B h)"
      "\<forall>b<length h. lookup h' b = lookup h b"
      by blast
    note ia = fresh_result_independent [OF va r(4,2,6)]
    note ib = fresh_result_independent [OF vb r(4,2,6)]
    have "contents A h2 = contents A h \<and> contents B h2 = contents B h"
      if "mutate_all ms R h' = Inr (R', h2)" for ms R' h2
      using mutate_all_bystander [OF r(4) ia(1,3) that]
        mutate_all_bystander [OF r(4) ib(1,3) that] ia(2) ib(2) by simp
    with r(1,2,3,5) ia(2,3) ib(2,3) show "\<exists>R h'. operator_plus add A B h = Inr (R, h') \<and>
               m_last R = m_last A \<and>
               map Some (contents R h') = map2 add (contents A h) (contents B h) \<and>
               m_ptr R = Some (length h) \<and> separate A R \<and> separate B R \<and>
               contents A h' = contents A h \<and> contents B h' = contents B h \<and>
               (\<forall>ms R' h2. mutate_all ms R h' = Inr (R', h2) \<longrightarrow>
                  contents A h2 = contents A h \<and> contents B h2 = contents B h)"
      by blast
  qed
  have 2: "valid_vec A h \<and> valid_vec B h \<and> 0 \<le> m_last A \<and> m_last B = m_last A \<and>
          (2 ^ 31 - 1 \<le> m_last A \<or> None \<in> set (map2 add (contents A h) (contents B h))) \<longrightarrow>
            operator_plus add A B h = Inl SignedOverflow"
    using plus_overflows [of A h B add] by blast
  have 3: "valid_vec A h \<and> valid_vec B h \<and>
          (occupied A = 0 \<or> occupied B = 0 \<or> m_last B \<noteq> m_last A) \<longrightarrow>
            (\<exists>R h'. operator_plus add A B h = Inr (R, h') \<and> occupied R = 0 \<and>
               contents R h' = [] \<and>
               m_size R = (if m_size B = 0 \<or> m_size A = 0 \<or> m_last B \<noteq> m_last A then 1
                           else m_size A)) \<and>
            (m_size B = 0 \<or> m_size A = 0 \<or> m_last B \<noteq> m_last A \<longrightarrow>
               operator_plus add A B h = SJCVector_default h)"
  proof
    assume a: "valid_vec A h \<and> valid_vec B h \<and>
          (occupied A = 0 \<or> occupied B = 0 \<or> m_last B \<noteq> m_last A)"
    then have va: "valid_vec A h" and vb: "valid_vec B h"
      and e: "m_last A = - 1 \<or> m_last B = - 1 \<or> m_last B \<noteq> m_last A"
      by (auto simp: occupied_def)
    have "m_size B = 0 \<or> m_size A = 0 \<or> m_last B \<noteq> m_last A \<longrightarrow>
               operator_plus add A B h = SJCVector_default h"
      by (simp add: operator_plus_def)
    with operator_plus_empty [OF va vb e, of add]
    show "(\<exists>R h'. operator_plus add A B h = Inr (R, h') \<and> occupied R = 0 \<and>
               contents R h' = [] \<and>
               m_size R = (if m_size B = 0 \<or> m_size A = 0 \<or> m_last B \<noteq> m_last A then 1
                           else m_size A)) \<and>
            (m_size B = 0 \<or> m_size A = 0 \<or> m_last B \<noteq> m_last A \<longrightarrow>
               operator_plus add A B h = SJCVector_default h)"
      by (auto simp: occupied_def)
  qed
  have 4: "valid_vec A h \<and> valid_vec B h \<and> 0 \<le> m_last A \<and> m_last B = m_last A \<and>
          m_last A < 2 ^ 31 - 1 \<and> None \<notin> set (map2 add (contents B h) (contents A h)) \<longrightarrow>
            (\<exists>R h'. operator_plus_raw add A B h = Inr (R, h') \<and> m_last R = m_last A \<and>
               map Some (contents R h') = map2 add (contents B h) (contents A h) \<and>
               m_ptr R = Some (length h) \<and> separate A R \<and> separate B R \<and>
               contents A h' = contents A h \<and> contents B h' = contents B h \<and>
               (\<forall>ms R' h2. mutate_all_raw ms R h' = Inr (R', h2) \<longrightarrow>
                  contents A h2 = contents A h \<and> contents B h2 = contents B h))"
  proof
    assume a: "valid_vec A h \<and> valid_vec B h \<and> 0 \<le> m_last A \<and> m_last B = m_last A \<and>
          m_last A < 2 ^ 31 - 1 \<and> None \<notin> set (map2 add (contents B h) (contents A h))"
    then have va: "valid_vec A h" and vb: "valid_vec B h" by simp_all
    from a plus_raw_adds_slots [OF va vb, of add] obtain R h' where
      r: "operator_plus_raw add A B h = Inr (R, h')" "m_ptr R = Some (length h)"
      "m_last R = m_last A" "valid_vec R h'"
      "map Some (contents R h') = map2 add (contents B h) (contents A h)"
      "\<forall>b<length h. lookup h' b = lookup h b"
      by blast
    note ia = fresh_result_independent [OF va r(4,2,6)]
    note ib = fresh_result_independent [OF vb r(4,2,6)]
    have "contents A h2 = contents A h \<and> contents B h2 = contents B h"
      if "mutate_all_raw ms R h' = Inr (R', h2)" for ms R' h2
      using mutate_all_raw_bystander [OF r(4) ia(1,3) that]
        mutate_all_raw_bystander [OF r(4) ib(1,3) that] ia(2) ib(2) by simp
    with r(1,2,3,5) ia(2,3) ib(2,3) show "\<exists>R h'. operator_plus_raw add A B h = Inr (R, h') \<and>
               m_last R = m_last A \<and>
               map Some (contents R h') = map2 add (contents B h) (contents A h) \<and>
               m_ptr R = Some (length h) \<and> separate A R \<and> separate B R \<and>
               contents A h' = contents A h \<and> contents B h' = contents B h \<and>
               (\<forall>ms R' h2. mutate_all_raw ms R h' = Inr (R', h2) \<longrightarrow>
                  contents A h2 = contents A h \<and> contents B h2 = contents B h)"
      by blast
  qed
  have 5: "valid_vec A h \<and> valid_vec B h \<and> 0 \<le> m_last A \<and> m_last B = m_last A \<and>
          (2 ^ 31 - 1 \<le> m_last A \<or> None \<in> set (map2 add (contents B h) (contents A h))) \<longrightarrow>
            operator_plus_raw add A B h = Inl SignedOverflow"
    using plus_raw_overflows [of A h B add] by blast
  have 6: "valid_vec A h \<and> valid_vec B h \<and>
          (occupied A = 0 \<or> occupied B = 0 \<or> m_last B \<noteq> m_last A) \<longrightarrow>
            (\<exists>R h'. operator_plus_raw add A B h = Inr (R, h') \<and> occupied R = 0 \<and>
               contents R h' = [] \<and> m_size R = 0)"
  proof
    assume a: "valid_vec A h \<and> valid_vec B h \<and>
          (occupied A = 0 \<or> occupied B = 0 \<or> m_last B \<noteq> m_last A)"
    then have va: "valid_vec A h" and vb: "valid_vec B h"
      and e: "m_last A = - 1 \<or> m_last B = - 1 \<or> m_last B \<noteq> m_last A"
      by (auto simp: occupied_def)
    from operator_plus_raw_empty [OF va vb e, of add]
    show "\<exists>R h'. operator_plus_raw add A B h = Inr (R, h') \<and> occupied R = 0 \<and>
               contents R h' = [] \<and> m_size R = 0"
      by (auto simp: occupied_def)
  qed
  from 1 2 3 4 5 6 show ?thesis by (intro conjI)
qed

theorem operator_plus_sum_witness:
  "valid_vec \<lparr>m_ptr = Some 0, m_size = 3, m_first = Some 0, m_last = 1, m_name = ''n''\<rparr>
     [Some [3::int, 56, 0], Some [9, 7, 0]] \<and>
   valid_vec \<lparr>m_ptr = Some 1, m_size = 3, m_first = Some 0, m_last = 1, m_name = ''m''\<rparr>
     [Some [3::int, 56, 0], Some [9, 7, 0]] \<and>
   map2 int_plus
     (contents \<lparr>m_ptr = Some 0, m_size = 3, m_first = Some 0, m_last = 1, m_name = ''n''\<rparr>
        [Some [3::int, 56, 0], Some [9, 7, 0]])
     (contents \<lparr>m_ptr = Some 1, m_size = 3, m_first = Some 0, m_last = 1, m_name = ''m''\<rparr>
        [Some [3::int, 56, 0], Some [9, 7, 0]]) = [Some 12, Some 63] \<and>
   operator_plus int_plus
     \<lparr>m_ptr = Some 0, m_size = 3, m_first = Some 0, m_last = 1, m_name = ''n''\<rparr>
     \<lparr>m_ptr = Some 1, m_size = 3, m_first = Some 0, m_last = 1, m_name = ''m''\<rparr>
     [Some [3::int, 56, 0], Some [9, 7, 0]] =
     Inr (\<lparr>m_ptr = Some 2, m_size = 3, m_first = Some 0, m_last = 1, m_name = ''retVec''\<rparr>,
          [Some [3, 56, 0], Some [9, 7, 0], Some [12, 63, 0]]) \<and>
   map Some
     (contents \<lparr>m_ptr = Some 2, m_size = 3, m_first = Some 0, m_last = 1, m_name = ''retVec''\<rparr>
        [Some [3::int, 56, 0], Some [9, 7, 0], Some [12, 63, 0]]) =
   map2 int_plus
     (contents \<lparr>m_ptr = Some 0, m_size = 3, m_first = Some 0, m_last = 1, m_name = ''n''\<rparr>
        [Some [3::int, 56, 0], Some [9, 7, 0]])
     (contents \<lparr>m_ptr = Some 1, m_size = 3, m_first = Some 0, m_last = 1, m_name = ''m''\<rparr>
        [Some [3::int, 56, 0], Some [9, 7, 0]]) \<and>
   valid_vec \<lparr>m_ptr = Some 0, m_size = 1, m_first = Some 0, m_last = 0, m_name = ''c''\<rparr>
     [Some [2147483647::int], Some [1]] \<and>
   valid_vec \<lparr>m_ptr = Some 1, m_size = 1, m_first = Some 0, m_last = 0, m_name = ''d''\<rparr>
     [Some [2147483647::int], Some [1]] \<and>
   map2 int_plus
     (contents \<lparr>m_ptr = Some 0, m_size = 1, m_first = Some 0, m_last = 0, m_name = ''c''\<rparr>
        [Some [2147483647::int], Some [1]])
     (contents \<lparr>m_ptr = Some 1, m_size = 1, m_first = Some 0, m_last = 0, m_name = ''d''\<rparr>
        [Some [2147483647::int], Some [1]]) = [None] \<and>
   operator_plus int_plus
     \<lparr>m_ptr = Some 0, m_size = 1, m_first = Some 0, m_last = 0, m_name = ''c''\<rparr>
     \<lparr>m_ptr = Some 1, m_size = 1, m_first = Some 0, m_last = 0, m_name = ''d''\<rparr>
     [Some [2147483647::int], Some [1]] = Inl SignedOverflow \<and>
   valid_vec \<lparr>m_ptr = Some 0, m_size = 1, m_first = Some 0, m_last = 0, m_name = ''a''\<rparr>
     [Some [''F''], Some [''G'']] \<and>
   valid_vec \<lparr>m_ptr = Some 1, m_size = 1, m_first = Some 0, m_last = 0, m_name = ''b''\<rparr>
     [Some [''F''], Some [''G'']] \<and>
   map2 string_plus
     (contents \<lparr>m_ptr = Some 1, m_size = 1, m_first = Some 0, m_last = 0, m_name = ''b''\<rparr>
        [Some [''F''], Some [''G'']])
     (contents \<lparr>m_ptr = Some 0, m_size = 1, m_first = Some 0, m_last = 0, m_name = ''a''\<rparr>
        [Some [''F''], Some [''G'']]) = [Some ''GF''] \<and>
   operator_plus_raw string_plus
     \<lparr>m_ptr = Some 0, m_size = 1, m_first = Some 0, m_last = 0, m_name = ''a''\<rparr>
     \<lparr>m_ptr = Some 1, m_size = 1, m_first = Some 0, m_last = 0, m_name = ''b''\<rparr>
     [Some [''F''], Some [''G'']] =
     Inr (\<lparr>m_ptr = Some 2, m_size = 1, m_first = None, m_last = 0, m_name = ''retVec''\<rparr>,
          [Some [''F''], Some [''G''], Some [''GF'']]) \<and>
   map Some
     (contents \<lparr>m_ptr = Some 2, m_size = 1, m_first = None, m_last = 0, m_name = ''retVec''\<rparr>
        [Some [''F''], Some [''G''], Some [''GF'']]) =
   map2 string_plus
     (contents \<lparr>m_ptr = Some 1, m_size = 1, m_first = Some 0, m_last = 0, m_name = ''b''\<rparr>
        [Some [''F''], Some [''G'']])
     (contents \<lparr>m_ptr = Some 0, m_size = 1, m_first = Some 0, m_last = 0, m_name = ''a''\<rparr>
        [Some [''F''], Some [''G'']])"
proof -
  have a: "valid_vec \<lparr>m_ptr = Some 0, m_size = 3, m_first = Some 0, m_last = 1, m_name = ''n''\<rparr>
     [Some [3::int, 56, 0], Some [9, 7, 0]]" by code_simp
  have b: "valid_vec \<lparr>m_ptr = Some 1, m_size = 3, m_first = Some 0, m_last = 1, m_name = ''m''\<rparr>
     [Some [3::int, 56, 0], Some [9, 7, 0]]" by code_simp
  have c: "map2 int_plus
     (contents \<lparr>m_ptr = Some 0, m_size = 3, m_first = Some 0, m_last = 1, m_name = ''n''\<rparr>
        [Some [3::int, 56, 0], Some [9, 7, 0]])
     (contents \<lparr>m_ptr = Some 1, m_size = 3, m_first = Some 0, m_last = 1, m_name = ''m''\<rparr>
        [Some [3::int, 56, 0], Some [9, 7, 0]]) = [Some 12, Some 63]" by code_simp
  have e: "operator_plus int_plus
     \<lparr>m_ptr = Some 0, m_size = 3, m_first = Some 0, m_last = 1, m_name = ''n''\<rparr>
     \<lparr>m_ptr = Some 1, m_size = 3, m_first = Some 0, m_last = 1, m_name = ''m''\<rparr>
     [Some [3::int, 56, 0], Some [9, 7, 0]] =
     Inr (\<lparr>m_ptr = Some 2, m_size = 3, m_first = Some 0, m_last = 1, m_name = ''retVec''\<rparr>,
          [Some [3, 56, 0], Some [9, 7, 0], Some [12, 63, 0]])" by code_simp
  have p: "valid_vec \<lparr>m_ptr = Some 0, m_size = 3, m_first = Some 0, m_last = 1, m_name = ''n''\<rparr>
        [Some [3::int, 56, 0], Some [9, 7, 0]] \<and>
      valid_vec \<lparr>m_ptr = Some 1, m_size = 3, m_first = Some 0, m_last = 1, m_name = ''m''\<rparr>
        [Some [3::int, 56, 0], Some [9, 7, 0]] \<and>
      0 \<le> m_last \<lparr>m_ptr = Some 0, m_size = 3, m_first = Some 0, m_last = 1, m_name = ''n''\<rparr> \<and>
      m_last \<lparr>m_ptr = Some 1, m_size = 3, m_first = Some 0, m_last = 1, m_name = ''m''\<rparr> =
        m_last \<lparr>m_ptr = Some 0, m_size = 3, m_first = Some 0, m_last = 1, m_name = ''n''\<rparr> \<and>
      m_last \<lparr>m_ptr = Some 0, m_size = 3, m_first = Some 0, m_last = 1, m_name = ''n''\<rparr>
        < 2 ^ 31 - 1 \<and>
      None \<notin> set (map2 int_plus
        (contents \<lparr>m_ptr = Some 0, m_size = 3, m_first = Some 0, m_last = 1, m_name = ''n''\<rparr>
           [Some [3::int, 56, 0], Some [9, 7, 0]])
        (contents \<lparr>m_ptr = Some 1, m_size = 3, m_first = Some 0, m_last = 1, m_name = ''m''\<rparr>
           [Some [3::int, 56, 0], Some [9, 7, 0]]))"
    using a b unfolding c by simp
  from operator_plus_sum [where add = int_plus, THEN conjunct1, rule_format, OF p]
  have s: "map Some
     (contents \<lparr>m_ptr = Some 2, m_size = 3, m_first = Some 0, m_last = 1, m_name = ''retVec''\<rparr>
        [Some [3::int, 56, 0], Some [9, 7, 0], Some [12, 63, 0]]) =
   map2 int_plus
     (contents \<lparr>m_ptr = Some 0, m_size = 3, m_first = Some 0, m_last = 1, m_name = ''n''\<rparr>
        [Some [3::int, 56, 0], Some [9, 7, 0]])
     (contents \<lparr>m_ptr = Some 1, m_size = 3, m_first = Some 0, m_last = 1, m_name = ''m''\<rparr>
        [Some [3::int, 56, 0], Some [9, 7, 0]])"
    unfolding e by auto
  have a2: "valid_vec \<lparr>m_ptr = Some 0, m_size = 1, m_first = Some 0, m_last = 0, m_name = ''c''\<rparr>
     [Some [2147483647::int], Some [1]]" by code_simp
  have b2: "valid_vec \<lparr>m_ptr = Some 1, m_size = 1, m_first = Some 0, m_last = 0, m_name = ''d''\<rparr>
     [Some [2147483647::int], Some [1]]" by code_simp
  have c2: "map2 int_plus
     (contents \<lparr>m_ptr = Some 0, m_size = 1, m_first = Some 0, m_last = 0, m_name = ''c''\<rparr>
        [Some [2147483647::int], Some [1]])
     (contents \<lparr>m_ptr = Some 1, m_size = 1, m_first = Some 0, m_last = 0, m_name = ''d''\<rparr>
        [Some [2147483647::int], Some [1]]) = [None]" by code_simp
  have p2: "valid_vec \<lparr>m_ptr = Some 0, m_size = 1, m_first = Some 0, m_last = 0, m_name = ''c''\<rparr>
        [Some [2147483647::int], Some [1]] \<and>
      valid_vec \<lparr>m_ptr = Some 1, m_size = 1, m_first = Some 0, m_last = 0, m_name = ''d''\<rparr>
        [Some [2147483647::int], Some [1]] \<and>
      0 \<le> m_last \<lparr>m_ptr = Some 0, m_size = 1, m_first = Some 0, m_last = 0, m_name = ''c''\<rparr> \<and>
      m_last \<lparr>m_ptr = Some 1, m_size = 1, m_first = Some 0, m_last = 0, m_name = ''d''\<rparr> =
        m_last \<lparr>m_ptr = Some 0, m_size = 1, m_first = Some 0, m_last = 0, m_name = ''c''\<rparr> \<and>
      (2 ^ 31 - 1 \<le> m_last \<lparr>m_ptr = Some 0, m_size = 1, m_first = Some 0, m_last = 0, m_name = ''c''\<rparr> \<or>
       None \<in> set (map2 int_plus
        (contents \<lparr>m_ptr = Some 0, m_size = 1, m_first = Some 0, m_last = 0, m_name = ''c''\<rparr>
           [Some [2147483647::int], Some [1]])
        (contents \<lparr>m_ptr = Some 1, m_size = 1, m_first = Some 0, m_last = 0, m_name = ''d''\<rparr>
           [Some [2147483647::int], Some [1]])))"
    using a2 b2 unfolding c2 by simp
  note o = operator_plus_sum [where add = int_plus, THEN conjunct2, THEN conjunct1, rule_format,
      OF p2]
  have a3: "valid_vec \<lparr>m_ptr = Some 0, m_size = 1, m_first = Some 0, m_last = 0, m_name = ''a''\<rparr>
     [Some [''F''], Some [''G'']]" by code_simp
  have b3: "valid_vec \<lparr>m_ptr = Some 1, m_size = 1, m_first = Some 0, m_last = 0, m_name = ''b''\<rparr>
     [Some [''F''], Some [''G'']]" by code_simp
  have c3: "map2 string_plus
     (contents \<lparr>m_ptr = Some 1, m_size = 1, m_first = Some 0, m_last = 0, m_name = ''b''\<rparr>
        [Some [''F''], Some [''G'']])
     (contents \<lparr>m_ptr = Some 0, m_size = 1, m_first = Some 0, m_last = 0, m_name = ''a''\<rparr>
        [Some [''F''], Some [''G'']]) = [Some ''GF'']" by code_simp
  have e3: "operator_plus_raw string_plus
     \<lparr>m_ptr = Some 0, m_size = 1, m_first = Some 0, m_last = 0, m_name = ''a''\<rparr>
     \<lparr>m_ptr = Some 1, m_size = 1, m_first = Some 0, m_last = 0, m_name = ''b''\<rparr>
     [Some [''F''], Some [''G'']] =
     Inr (\<lparr>m_ptr = Some 2, m_size = 1, m_first = None, m_last = 0, m_name = ''retVec''\<rparr>,
          [Some [''F''], Some [''G''], Some [''GF'']])" by code_simp
  have p3: "valid_vec \<lparr>m_ptr = Some 0, m_size = 1, m_first = Some 0, m_last = 0, m_name = ''a''\<rparr>
        [Some [''F''], Some [''G'']] \<and>
      valid_vec \<lparr>m_ptr = Some 1, m_size = 1, m_first = Some 0, m_last = 0, m_name = ''b''\<rparr>
        [Some [''F''], Some [''G'']] \<and>
      0 \<le> m_last \<lparr>m_ptr = Some 0, m_size = 1, m_first = Some 0, m_last = 0, m_name = ''a''\<rparr> \<and>
      m_last \<lparr>m_ptr = Some 1, m_size = 1, m_first = Some 0, m_last = 0, m_name = ''b''\<rparr> =
        m_last \<lparr>m_ptr = Some 0, m_size = 1, m_first = Some 0, m_last = 0, m_name = ''a''\<rparr> \<and>
      m_last \<lparr>m_ptr = Some 0, m_size = 1, m_first = Some 0, m_last = 0, m_name = ''a''\<rparr>
        < 2 ^ 31 - 1 \<and>
      None \<notin> set (map2 string_plus
        (contents \<lparr>m_ptr = Some 1, m_size = 1, m_first = Some 0, m_last = 0, m_name = ''b''\<rparr>
           [Some [''F''], Some [''G'']])
        (contents \<lparr>m_ptr = Some 0, m_size = 1, m_first = Some 0, m_last = 0, m_name = ''a''\<rparr>
           [Some [''F''], Some [''G'']]))"
    using a3 b3 unfolding c3 by simp
  from operator_plus_sum [where add = string_plus, THEN conjunct2, THEN conjunct2,
      THEN conjunct2, THEN conjunct1, rule_format, OF p3]
  have s3: "map Some
     (contents \<lparr>m_ptr = Some 2, m_size = 1, m_first = None, m_last = 0, m_name = ''retVec''\<rparr>
        [Some [''F''], Some [''G''], Some [''GF'']]) =
   map2 string_plus
     (contents \<lparr>m_ptr = Some 1, m_size = 1, m_first = Some 0, m_last = 0, m_name = ''b''\<rparr>
        [Some [''F''], Some [''G'']])
     (contents \<lparr>m_ptr = Some 0, m_size = 1, m_first = Some 0, m_last = 0, m_name = ''a''\<rparr>
        [Some [''F''], Some [''G'']])"
    unfolding e3 by auto
  from a b c e s a2 b2 c2 o a3 b3 c3 e3 s3 show ?thesis by (intro conjI)
qed

section \<open>Programs\<close>

lemma carry_foreseen:
  assumes "carry e f = Inl e2" "foreseen e" "\<And>s e3. e = Overrun s \<Longrightarrow> f s = Inl e3 \<Longrightarrow> foreseen e3"
  shows "foreseen e2"
proof (cases e)
  case (Overrun s)
  with assms(1,3) show ?thesis by (cases "f s") auto
qed (use assms(1,2) in auto)

lemma bindR_foreseen:
  assumes "bindR m f = Inl e" "\<And>e'. m = Inl e' \<Longrightarrow> foreseen e'"
    "\<And>s e'. final m = Some s \<Longrightarrow> f s = Inl e' \<Longrightarrow> foreseen e'"
  shows "foreseen e"
proof (cases m)
  case (Inl e')
  with assms(1) have c: "carry e' f = Inl e" by simp
  show ?thesis
  proof (rule carry_foreseen [OF c])
    show "foreseen e'" using Inl by (rule assms(2))
    show "\<And>s e3. e' = Overrun s \<Longrightarrow> f s = Inl e3 \<Longrightarrow> foreseen e3"
      using Inl by (intro assms(3)) auto
  qed
next
  case (Inr x)
  with assms(1,3) show ?thesis by simp
qed

lemma separate_sym: "separate a b \<Longrightarrow> separate b a"
  by (auto simp: separate_def)

lemma world_ok_update:
  assumes "world_ok w" "i < length (w_objs w)" "valid_vec v' h'"
    "\<forall>k<length (w_objs w). k \<noteq> i \<longrightarrow> separate (w_objs w ! k) v'"
    "\<And>b. b < length (w_heap w) \<Longrightarrow> Some b \<noteq> m_ptr (w_objs w ! i) \<Longrightarrow>
       lookup h' b = lookup (w_heap w) b"
  shows "world_ok (w\<lparr>w_heap := h', w_objs := (w_objs w)[i := v']\<rparr>)"
proof -
  have v: "\<And>k. k < length (w_objs w) \<Longrightarrow> valid_vec (w_objs w ! k) (w_heap w)"
    and s: "\<And>k l. k < length (w_objs w) \<Longrightarrow> l < length (w_objs w) \<Longrightarrow> k \<noteq> l \<Longrightarrow>
              separate (w_objs w ! k) (w_objs w ! l)"
    using assms(1) by (auto simp: world_ok_def)
  have other: "valid_vec (w_objs w ! k) h'" if k: "k < length (w_objs w)" "k \<noteq> i" for k
  proof -
    have "lookup h' b = lookup (w_heap w) b" if "m_ptr (w_objs w ! k) = Some b" for b
    proof (rule assms(5))
      show "b < length (w_heap w)" using valid_vec_less [OF v [OF k(1)] that] .
      show "Some b \<noteq> m_ptr (w_objs w ! i)"
        using s [OF k(1) assms(2) k(2)] that by (auto simp: separate_def)
    qed
    from valid_vec_frame(1) [OF v [OF k(1)] this] show ?thesis .
  qed
  have 1: "\<forall>u\<in>set ((w_objs w)[i := v']). valid_vec u h'"
  proof
    fix u assume "u \<in> set ((w_objs w)[i := v'])"
    then obtain k where k: "k < length (w_objs w)" "u = (w_objs w)[i := v'] ! k"
      by (auto simp: in_set_conv_nth)
    show "valid_vec u h'"
      using k other [of k] assms(3) by (cases "k = i") simp_all
  qed
  have 2: "separate ((w_objs w)[i := v'] ! k) ((w_objs w)[i := v'] ! l)"
    if "k < length (w_objs w)" "l < length (w_objs w)" "k \<noteq> l" for k l
    using that s [of k l] assms(4) separate_sym [of "w_objs w ! k" v']
    by (cases "k = i"; cases "l = i") (simp_all add: separate_sym)
  from 1 2 show ?thesis by (simp add: world_ok_def)
qed

lemma world_ok_new:
  assumes "world_ok w" "valid_vec v' h'"
    "\<forall>k<length (w_objs w). separate (w_objs w ! k) v'"
    "\<And>b. b < length (w_heap w) \<Longrightarrow> lookup h' b = lookup (w_heap w) b"
  shows "world_ok (w\<lparr>w_heap := h', w_objs := w_objs w @ [v']\<rparr>)"
proof -
  have v: "\<And>k. k < length (w_objs w) \<Longrightarrow> valid_vec (w_objs w ! k) (w_heap w)"
    and s: "\<And>k l. k < length (w_objs w) \<Longrightarrow> l < length (w_objs w) \<Longrightarrow> k \<noteq> l \<Longrightarrow>
              separate (w_objs w ! k) (w_objs w ! l)"
    using assms(1) by (auto simp: world_ok_def)
  have other: "valid_vec (w_objs w ! k) h'" if k: "k < length (w_objs w)" for k
  proof -
    have "lookup h' b = lookup (w_heap w) b" if "m_ptr (w_objs w ! k) = Some b" for b
      using valid_vec_less [OF v [OF k] that] by (rule assms(4))
    from valid_vec_frame(1) [OF v [OF k] this] show ?thesis .
  qed
  have 1: "\<forall>u\<in>set (w_objs w @ [v']). valid_vec u h'"
    using other assms(2) by (auto simp: in_set_conv_nth)
  have 2: "separate ((w_objs w @ [v']) ! k) ((w_objs w @ [v']) ! l)"
    if "k < Suc (length (w_objs w))" "l < Suc (length (w_objs w))" "k \<noteq> l" for k l
  proof (cases "k < length (w_objs w)")
    case True
    show ?thesis
    proof (cases "l < length (w_objs w)")
      case l: True
      with True that(3) s [of k l] show ?thesis by (simp add: nth_append)
    next
      case False
      with that(2) have "l = length (w_objs w)" by simp
      with True assms(3) show ?thesis by (simp add: nth_append)
    qed
  next
    case False
    with that have "k = length (w_objs w)" "l < length (w_objs w)" by simp_all
    with assms(3) show ?thesis by (simp add: nth_append separate_sym)
  qed
  from 1 2 show ?thesis by (simp add: world_ok_def)
qed


lemma fresh_separate:
  assumes "valid_vec u h" "m_ptr v = Some (length h)"
  shows "separate u v"
  using assms(2) valid_vec_not_fresh [OF assms(1)] by (auto simp: separate_def)

lemma null_separate:
  assumes "m_ptr v = None"
  shows "separate u v"
  using assms by (auto simp: separate_def)

lemma separate_ptr:
  assumes "separate u v" "m_ptr v' = m_ptr v"
  shows "separate u v'"
  using assms by (simp add: separate_def)

lemma separate_after:
  assumes "valid_vec u h" "separate u v" "m_ptr v' = m_ptr v \<or> m_ptr v' = Some (length h)"
  shows "separate u v'"
  using assms(2,3) valid_vec_not_fresh [OF assms(1)] by (auto simp: separate_def)

lemma resize_overrun_props:
  assumes "valid_vec v h" "resize n v h = Inl (Overrun (v', h'))"
  shows "valid_vec v' h'" "m_ptr v' = Some (length h)"
    "\<And>b. b < length h \<Longrightarrow> Some b \<noteq> m_ptr v \<Longrightarrow> lookup h' b = lookup h b"
proof -
  define k where "k = (if n = 0 then 1 else n)"
  have k: "0 < k" by (simp add: k_def)
  from assms(2) have c: "0 \<le> m_last v" "k < m_size v" "int k \<le> max_alloc"
    and v': "v' = v\<lparr>m_ptr := Some (length h), m_size := k,
                     m_last := min (m_last v) (int k - 1)\<rparr>"
    and h': "h' = (h @ [Some (take k (the (lookup h (the (m_ptr v)))))])[the (m_ptr v) := None]"
    unfolding resize_valid [OF assms(1)] Let_def k_def [symmetric]
    by (auto split: if_splits)
  from c(1) assms(1) obtain a where a: "m_ptr v = Some a"
    by (cases "m_ptr v") (auto simp: valid_vec_def)
  from valid_vec_ptr [OF assms(1) a] obtain xs where
    xs: "lookup h a = Some xs" "length xs = m_size v" by blast
  have less: "a < length h" using xs(1) by (rule lookup_Some_less)
  have lk: "lookup h' (length h) = Some (take k xs)"
    using h' a xs less by simp
  have len: "length (take k xs) = k" using c(2) xs(2) by simp
  have m: "- 1 \<le> min (m_last v) (int k - 1)" "min (m_last v) (int k - 1) < int k"
    using c(1) k by simp_all
  show "valid_vec v' h'"
    using lk len m c(3) by (simp add: valid_vec_def v')
  show "m_ptr v' = Some (length h)" by (simp add: v')
  show "\<And>b. b < length h \<Longrightarrow> Some b \<noteq> m_ptr v \<Longrightarrow> lookup h' b = lookup h b"
    using a h' by simp
qed

lemma resize_final:
  assumes "valid_vec v h" "final (resize n v h) = Some (v', h')"
  shows "valid_vec v' h'" "m_ptr v' = Some (length h)"
    "\<And>b. b < length h \<Longrightarrow> Some b \<noteq> m_ptr v \<Longrightarrow> lookup h' b = lookup h b"
proof -
  from assms(2) have "resize n v h = Inr (v', h') \<or> resize n v h = Inl (Overrun (v', h'))"
    by (simp add: final_Inr_iff)
  then have "valid_vec v' h' \<and> m_ptr v' = Some (length h) \<and>
        (\<forall>b. b < length h \<longrightarrow> Some b \<noteq> m_ptr v \<longrightarrow> lookup h' b = lookup h b)"
  proof
    assume r: "resize n v h = Inr (v', h')"
    from resize_props(2) [OF assms(1) r] resize_ptr [OF r] resize_frame [OF r]
    show ?thesis by blast
  next
    assume r: "resize n v h = Inl (Overrun (v', h'))"
    from resize_overrun_props [OF assms(1) r] show ?thesis by blast
  qed
  then show "valid_vec v' h'" "m_ptr v' = Some (length h)"
    "\<And>b. b < length h \<Longrightarrow> Some b \<noteq> m_ptr v \<Longrightarrow> lookup h' b = lookup h b"
    by simp_all
qed

lemma resize_foreseen:
  assumes "valid_vec v h" "resize n v h = Inl e"
  shows "foreseen e"
  using assms(2) unfolding resize_valid [OF assms(1)] by (auto simp: Let_def split: if_splits)

lemma push_back_final:
  assumes "valid_vec v h" "final (push_back x v h) = Some (v', h')"
  shows "valid_vec v' h'" "m_ptr v' = m_ptr v \<or> m_ptr v' = Some (length h)"
    "\<And>b. b < length h \<Longrightarrow> Some b \<noteq> m_ptr v \<Longrightarrow> lookup h' b = lookup h b"
proof -
  from assms(2) push_back_fault [OF assms(1), of x "Overrun (v', h')"]
  have r: "push_back x v h = Inr (v', h')"
    by (auto simp: final_Inr_iff)
  show "valid_vec v' h'" by (rule push_back_props(3) [OF assms(1) r])
  show "m_ptr v' = m_ptr v \<or> m_ptr v' = Some (length h)" by (rule push_back_ptr [OF r])
  show "\<And>b. b < length h \<Longrightarrow> Some b \<noteq> m_ptr v \<Longrightarrow> lookup h' b = lookup h b"
    by (rule push_back_frame [OF r])
qed

lemma push_back_foreseen:
  assumes "valid_vec v h" "push_back x v h = Inl e"
  shows "foreseen e"
  using push_back_fault [OF assms] by simp

lemma initSJCVector_cases:
  "initSJCVector c nm h = Inl BadAlloc \<or>
   (\<exists>v. initSJCVector c nm h = Inr (v, h @ [Some (replicate c 0)]) \<and>
        valid_vec v (h @ [Some (replicate c 0)]) \<and> m_ptr v = Some (length h))"
proof (cases "int c \<le> max_alloc")
  case True
  from initSJCVector_total [OF True, of nm h] obtain v h' where
    i: "initSJCVector c nm h = Inr (v, h')" by blast
  from initSJCVector_props [OF i] i show ?thesis by simp
next
  case False
  then show ?thesis by (simp add: initSJCVector_def alloc_def)
qed

lemma assign_fresh:
  assumes "valid_vec this h" "valid_vec c h1" "m_ptr c = Some (length h)"
    "\<forall>b<length h. lookup h1 b = lookup h b"
  shows "\<exists>v h'. assign this c h1 = Inr (v, h') \<and> valid_vec v h' \<and>
           m_ptr v = Some (length h) \<and>
           (\<forall>b<length h. Some b \<noteq> m_ptr this \<longrightarrow> lookup h' b = lookup h b)"
proof -
  have f: "\<And>b. m_ptr this = Some b \<Longrightarrow> lookup h1 b = lookup h b"
    using assms(4) valid_vec_less [OF assms(1)] by simp
  note vt = valid_vec_frame(1) [OF assms(1) f]
  have s: "separate this c" using assms(1,3) by (rule fresh_separate)
  have "\<exists>v h'. assign this c h1 = Inr (v, h')"
    by (simp add: assign_valid [OF vt])
  then obtain v h' where a: "assign this c h1 = Inr (v, h')" by blast
  note q = assign_props [OF vt assms(2) s a]
  have "\<forall>b<length h. Some b \<noteq> m_ptr this \<longrightarrow> lookup h' b = lookup h b"
    using q(8) assms(4) by simp
  with a q(1,5) assms(3) show ?thesis by simp
qed

lemma assign_copy_effect:
  assumes "valid_vec this h" "valid_vec rhs h"
  shows "\<exists>v h'. assign_copy this rhs h = Inr (v, h') \<and> valid_vec v h' \<and>
           m_ptr v = Some (length h) \<and>
           (\<forall>b<length h. Some b \<noteq> m_ptr this \<longrightarrow> lookup h' b = lookup h b)"
proof -
  obtain c h1 where c: "copy_ctor rhs h = Inr (c, h1)"
    unfolding copy_ctor_valid [OF assms(2)] by simp
  note p = copy_ctor_props [OF assms(2) c]
  have "\<forall>b<length h. lookup h1 b = lookup h b" using p(4) by simp
  from assign_fresh [OF assms(1) p(5,1) this] c show ?thesis
    by (simp add: assign_copy_def)
qed

lemma operator_plus_cases:
  fixes h :: "'a::zero heap"
  assumes "valid_vec A h" "valid_vec B h"
  shows "operator_plus add A B h = Inl SignedOverflow \<or>
         (\<exists>R h'. operator_plus add A B h = Inr (R, h') \<and> valid_vec R h' \<and>
            m_ptr R = Some (length h) \<and> (\<forall>b<length h. lookup h' b = lookup h b))"
proof (cases "m_size B = 0 \<or> m_size A = 0 \<or> m_last B \<noteq> m_last A")
  case True
  then have "operator_plus add A B h = initSJCVector 1 [] h"
    by (simp add: operator_plus_def SJCVector_default_def)
  with initSJCVector_cases [of 1 "[]" h] show ?thesis
    by (auto simp: initSJCVector_def alloc_def max_alloc_def)
next
  case False
  then have eq: "m_last B = m_last A" by simp
  show ?thesis
  proof (cases "0 \<le> m_last A")
    case neg: False
    with valid_vecD(1) [OF assms(1)] have l: "m_last A = - 1" by simp
    obtain c h1 where c: "copy_ctor A h = Inr (c, h1)"
      unfolding copy_ctor_valid [OF assms(1)] by simp
    note p = copy_ctor_props [OF assms(1) c]
    have lp: "add_loop add 0 (- 1) (Some (length h)) (m_ptr B) h1 = Inr h1"
      by (subst add_loop.simps) simp
    have op: "operator_plus add A B h = Inr (rename ''retVec'' c, h1)"
      using False l c p(1) lp by (simp add: operator_plus_def Let_def rename_def)
    have "valid_vec (rename ''retVec'' c) h1"
      using p(5) same_guts(1) [of "rename ''retVec'' c" c h1] by (simp add: rename_def)
    with op p(1,4) show ?thesis by (simp add: rename_def)
  next
    case True
    show ?thesis
    proof (cases "m_last A < 2 ^ 31 - 1 \<and> None \<notin> set (map2 add (contents A h) (contents B h))")
      case ok: True
      with plus_adds_slots [OF assms True eq, of add] show ?thesis by blast
    next
      case bad: False
      then have "2 ^ 31 - 1 \<le> m_last A \<or> None \<in> set (map2 add (contents A h) (contents B h))"
        by auto
      from plus_overflows [OF assms True eq this] show ?thesis by simp
    qed
  qed
qed


lemma new_object_final:
  "final (new_object w r) = Some w1 \<longleftrightarrow>
     (\<exists>v h. final r = Some (v, h) \<and> w1 = w\<lparr>w_heap := h, w_objs := w_objs w @ [v]\<rparr>)"
  by (auto simp: new_object_def final_bindR_Some)

lemma set_object_final:
  "final (set_object w i r) = Some w1 \<longleftrightarrow>
     (\<exists>v h. final r = Some (v, h) \<and> w1 = w\<lparr>w_heap := h, w_objs := (w_objs w)[i := v]\<rparr>)"
  by (auto simp: set_object_def final_bindR_Some)

lemma new_object_foreseen:
  assumes "new_object w r = Inl e" "\<And>e'. r = Inl e' \<Longrightarrow> foreseen e'"
  shows "foreseen e"
  using assms(1) unfolding new_object_def
  by (rule bindR_foreseen) (use assms(2) in auto)

lemma set_object_foreseen:
  assumes "set_object w i r = Inl e" "\<And>e'. r = Inl e' \<Longrightarrow> foreseen e'"
  shows "foreseen e"
  using assms(1) unfolding set_object_def
  by (rule bindR_foreseen) (use assms(2) in auto)

lemma new_fresh_ok:
  assumes "world_ok w" "valid_vec v h'" "m_ptr v = Some (length (w_heap w))"
    "\<forall>b<length (w_heap w). lookup h' b = lookup (w_heap w) b"
  shows "world_ok (w\<lparr>w_heap := h', w_objs := w_objs w @ [v]\<rparr>)"
proof (rule world_ok_new [OF assms(1,2)])
  show "\<forall>k<length (w_objs w). separate (w_objs w ! k) v"
    using assms(1,3) by (auto simp: world_ok_def intro: fresh_separate)
  show "\<And>b. b < length (w_heap w) \<Longrightarrow> lookup h' b = lookup (w_heap w) b"
    using assms(4) by simp
qed

lemma update_fresh_ok:
  assumes "world_ok w" "i < length (w_objs w)" "valid_vec v' h'"
    "m_ptr v' = m_ptr (w_objs w ! i) \<or> m_ptr v' = Some (length (w_heap w))"
    "\<forall>b<length (w_heap w). Some b \<noteq> m_ptr (w_objs w ! i) \<longrightarrow>
       lookup h' b = lookup (w_heap w) b"
  shows "world_ok (w\<lparr>w_heap := h', w_objs := (w_objs w)[i := v']\<rparr>)"
proof (rule world_ok_update [OF assms(1,2,3)])
  show "\<forall>k<length (w_objs w). k \<noteq> i \<longrightarrow> separate (w_objs w ! k) v'"
  proof (intro allI impI)
    fix k assume k: "k < length (w_objs w)" "k \<noteq> i"
    with assms(1,2) have "valid_vec (w_objs w ! k) (w_heap w)"
      "separate (w_objs w ! k) (w_objs w ! i)"
      by (auto simp: world_ok_def)
    from separate_after [OF this assms(4)] show "separate (w_objs w ! k) v'" .
  qed
  show "\<And>b. b < length (w_heap w) \<Longrightarrow> Some b \<noteq> m_ptr (w_objs w ! i) \<Longrightarrow>
          lookup h' b = lookup (w_heap w) b"
    using assms(5) by simp
qed

lemma move_out_ok:
  assumes "world_ok w" "j < length (w_objs w)" "move_ctor (w_objs w ! j) = (c, r)"
  shows "world_ok (w\<lparr>w_objs := (w_objs w)[j := r]\<rparr>)"
    "valid_vec c (w_heap w)"
    "\<forall>k<length (w_objs w). separate ((w_objs w)[j := r] ! k) c"
proof -
  from assms(1,2) have vj: "valid_vec (w_objs w ! j) (w_heap w)" by (simp add: world_ok_def)
  note p = move_ctor_props [OF vj assms(3)]
  have "world_ok (w\<lparr>w_heap := w_heap w, w_objs := (w_objs w)[j := r]\<rparr>)"
    using p(6,9) by (intro world_ok_update [OF assms(1,2)]) (simp_all add: null_separate)
  then show "world_ok (w\<lparr>w_objs := (w_objs w)[j := r]\<rparr>)" by simp
  show "valid_vec c (w_heap w)" by (rule p(4))
  show "\<forall>k<length (w_objs w). separate ((w_objs w)[j := r] ! k) c"
  proof (intro allI impI)
    fix k assume k: "k < length (w_objs w)"
    show "separate ((w_objs w)[j := r] ! k) c"
    proof (cases "k = j")
      case True
      with k p(6) show ?thesis by (simp add: separate_def)
    next
      case False
      with assms(1,2) k have "separate (w_objs w ! k) (w_objs w ! j)"
        by (simp add: world_ok_def)
      from separate_ptr [OF this p(1)] False show ?thesis by simp
    qed
  qed
qed

lemma swap_world_ok:
  assumes "world_ok w" "i < length (w_objs w)" "j < length (w_objs w)"
    "swap (w_objs w ! i) (w_objs w ! j) = (a, b)"
  shows "world_ok (w\<lparr>w_objs := (w_objs w)[i := a, j := b]\<rparr>)"
proof -
  define L where "L = (w_objs w)[i := a, j := b]"
  define sw where "sw k = (if k = i then j else if k = j then i else k)" for k
  have v: "\<And>k. k < length (w_objs w) \<Longrightarrow> valid_vec (w_objs w ! k) (w_heap w)"
    and s: "\<And>k l. k < length (w_objs w) \<Longrightarrow> l < length (w_objs w) \<Longrightarrow> k \<noteq> l \<Longrightarrow>
              separate (w_objs w ! k) (w_objs w ! l)"
    using assms(1) by (auto simp: world_ok_def)
  from assms(4) have a: "m_ptr a = m_ptr (w_objs w ! j)" "m_size a = m_size (w_objs w ! j)"
      "m_last a = m_last (w_objs w ! j)"
    and b: "m_ptr b = m_ptr (w_objs w ! i)" "m_size b = m_size (w_objs w ! i)"
      "m_last b = m_last (w_objs w ! i)"
    by (auto simp: swap_def)
  have g: "m_ptr (L ! k) = m_ptr (w_objs w ! sw k) \<and> m_size (L ! k) = m_size (w_objs w ! sw k) \<and>
           m_last (L ! k) = m_last (w_objs w ! sw k)" if "k < length (w_objs w)" for k
    using that assms(2,3) a b by (simp add: L_def sw_def nth_list_update)
  have sw: "sw k < length (w_objs w)" if "k < length (w_objs w)" for k
    using that assms(2,3) by (simp add: sw_def)
  have inj: "sw k \<noteq> sw l" if "k \<noteq> l" for k l
    using that by (auto simp: sw_def split: if_splits)
  have 1: "\<forall>u\<in>set L. valid_vec u (w_heap w)"
  proof
    fix u assume "u \<in> set L"
    then obtain k where k: "k < length (w_objs w)" "u = L ! k"
      by (auto simp: in_set_conv_nth L_def)
    from g [OF k(1)] have "valid_vec (L ! k) (w_heap w) = valid_vec (w_objs w ! sw k) (w_heap w)"
      by (intro same_guts(1)) simp_all
    with v [OF sw [OF k(1)]] k(2) show "valid_vec u (w_heap w)" by simp
  qed
  have 2: "separate (L ! k) (L ! l)"
    if "k < length (w_objs w)" "l < length (w_objs w)" "k \<noteq> l" for k l
    using s [OF sw [OF that(1)] sw [OF that(2)] inj [OF that(3)]] g [OF that(1)] g [OF that(2)]
    by (simp add: separate_def)
  from 1 2 show ?thesis
    by (simp add: world_ok_def L_def [symmetric]) (simp add: L_def)
qed

lemma step_world_ok:
  fixes w :: "'a::zero world"
  assumes "world_ok w" "final (step add c w) = Some w1"
  shows "world_ok w1"
proof -
  have v: "\<And>k. k < length (w_objs w) \<Longrightarrow> valid_vec (w_objs w ! k) (w_heap w)"
    using assms(1) by (auto simp: world_ok_def)
  have init: "world_ok w1"
    if "final (new_object w (initSJCVector n nm (w_heap w))) = Some w1" for n nm
  proof -
    from that obtain v0 h0 where f: "final (initSJCVector n nm (w_heap w)) = Some (v0, h0)"
      and w1: "w1 = w\<lparr>w_heap := h0, w_objs := w_objs w @ [v0]\<rparr>"
      by (auto simp: new_object_final)
    from f initSJCVector_cases [of n nm "w_heap w"]
    have "valid_vec v0 h0" "m_ptr v0 = Some (length (w_heap w))"
      "h0 = w_heap w @ [Some (replicate n 0)]" by auto
    then show ?thesis unfolding w1 by (intro new_fresh_ok [OF assms(1)]) simp_all
  qed
  show ?thesis
  proof (cases c)
    case (Construct n)
    with assms(2) show ?thesis by (intro init [of n "[]"]) (simp add: SJCVector_size_def)
  next
    case ConstructDefault
    with assms(2) show ?thesis by (intro init [of 1 "[]"]) (simp add: SJCVector_default_def)
  next
    case (ConstructNamed nm n)
    with assms(2) show ?thesis by (intro init [of n nm]) (simp add: SJCVector_named_def)
  next
    case (CopyConstruct j)
    with assms(2) have j: "j < length (w_objs w)"
      and n: "final (new_object w (copy_ctor (w_objs w ! j) (w_heap w))) = Some w1"
      by (auto split: if_splits)
    from n obtain v0 h0 where f: "copy_ctor (w_objs w ! j) (w_heap w) = Inr (v0, h0)"
      and w1: "w1 = w\<lparr>w_heap := h0, w_objs := w_objs w @ [v0]\<rparr>"
      unfolding new_object_final copy_ctor_valid [OF v [OF j]] by auto
    note p = copy_ctor_props [OF v [OF j] f]
    show ?thesis unfolding w1 using p(1,4,5)
      by (intro new_fresh_ok [OF assms(1)]) simp_all
  next
    case (MoveConstruct j)
    with assms(2) have j: "j < length (w_objs w)" by (auto split: if_splits)
    obtain c0 r where m: "move_ctor (w_objs w ! j) = (c0, r)"
      by (cases "move_ctor (w_objs w ! j)")
    note p = move_out_ok [OF assms(1) j m]
    from assms(2) MoveConstruct j m have w1: "w1 = w\<lparr>w_objs := (w_objs w)[j := r] @ [c0]\<rparr>"
      by auto
    have "world_ok ((w\<lparr>w_objs := (w_objs w)[j := r]\<rparr>)\<lparr>w_heap := w_heap w,
            w_objs := w_objs (w\<lparr>w_objs := (w_objs w)[j := r]\<rparr>) @ [c0]\<rparr>)"
      using p(2,3) by (intro world_ok_new [OF p(1)]) simp_all
    then show ?thesis by (simp add: w1)
  next
    case (AssignCopy i j)
    with assms(2) have ij: "i < length (w_objs w)" "j < length (w_objs w)"
      and n: "final (set_object w i (assign_copy (w_objs w ! i) (w_objs w ! j) (w_heap w))) =
                Some w1"
      by (auto split: if_splits)
    from assign_copy_effect [OF v [OF ij(1)] v [OF ij(2)]] obtain v0 h0 where
      e: "assign_copy (w_objs w ! i) (w_objs w ! j) (w_heap w) = Inr (v0, h0)"
      "valid_vec v0 h0" "m_ptr v0 = Some (length (w_heap w))"
      "\<forall>b<length (w_heap w). Some b \<noteq> m_ptr (w_objs w ! i) \<longrightarrow>
         lookup h0 b = lookup (w_heap w) b"
      by blast
    from n have w1: "w1 = w\<lparr>w_heap := h0, w_objs := (w_objs w)[i := v0]\<rparr>"
      unfolding set_object_final e(1) by simp
    show ?thesis unfolding w1 using e(2,3,4)
      by (intro update_fresh_ok [OF assms(1) ij(1)]) simp_all
  next
    case (AssignMove i j)
    with assms(2) have ij: "i < length (w_objs w)" "j < length (w_objs w)"
      by (auto split: if_splits)
    obtain c0 r where m: "move_ctor (w_objs w ! j) = (c0, r)"
      by (cases "move_ctor (w_objs w ! j)")
    note p = move_out_ok [OF assms(1) ij(2) m]
    define w0 where "w0 = w\<lparr>w_objs := (w_objs w)[j := r]\<rparr>"
    have w0: "world_ok w0" "w_heap w0 = w_heap w" "length (w_objs w0) = length (w_objs w)"
      "\<forall>k<length (w_objs w0). separate (w_objs w0 ! k) c0"
      using p(1,3) by (simp_all add: w0_def)
    have i0: "i < length (w_objs w0)" using ij(1) w0(3) by simp
    from w0(1) i0 have vi: "valid_vec (w_objs w0 ! i) (w_heap w)"
      by (simp add: world_ok_def w0(2) [symmetric])
    from assms(2) AssignMove ij m
    have n: "final (set_object w0 i (assign (w_objs w0 ! i) c0 (w_heap w0))) = Some w1"
      by (auto simp: w0_def Let_def split: if_splits)
    have "\<exists>v0 h0. assign (w_objs w0 ! i) c0 (w_heap w) = Inr (v0, h0)"
      by (simp add: assign_valid [OF vi])
    then obtain v0 h0 where a: "assign (w_objs w0 ! i) c0 (w_heap w) = Inr (v0, h0)" by blast
    have si: "separate (w_objs w0 ! i) c0" using w0(4) i0 by simp
    note q = assign_props [OF vi p(2) si a]
    from n have w1: "w1 = w0\<lparr>w_heap := h0, w_objs := (w_objs w0)[i := v0]\<rparr>"
      unfolding set_object_final w0(2) a by simp
    have "\<forall>k<length (w_objs w0). k \<noteq> i \<longrightarrow> separate (w_objs w0 ! k) v0"
      using w0(4) q(1) by (auto intro: separate_ptr)
    then show ?thesis unfolding w1 using q(5,8) w0(2)
      by (intro world_ok_update [OF w0(1) i0]) simp_all
  next
    case (PushBack i x)
    with assms(2) have i: "i < length (w_objs w)"
      and n: "final (set_object w i (push_back x (w_objs w ! i) (w_heap w))) = Some w1"
      by (auto split: if_splits)
    from n obtain v0 h0 where f: "final (push_back x (w_objs w ! i) (w_heap w)) = Some (v0, h0)"
      and w1: "w1 = w\<lparr>w_heap := h0, w_objs := (w_objs w)[i := v0]\<rparr>"
      by (auto simp: set_object_final)
    note p = push_back_final [OF v [OF i] f]
    show ?thesis unfolding w1 using p
      by (intro update_fresh_ok [OF assms(1) i]) simp_all
  next
    case (ResizeTo i n)
    with assms(2) have i: "i < length (w_objs w)"
      and n: "final (set_object w i (resize n (w_objs w ! i) (w_heap w))) = Some w1"
      by (auto split: if_splits)
    from n obtain v0 h0 where f: "final (resize n (w_objs w ! i) (w_heap w)) = Some (v0, h0)"
      and w1: "w1 = w\<lparr>w_heap := h0, w_objs := (w_objs w)[i := v0]\<rparr>"
      by (auto simp: set_object_final)
    note p = resize_final [OF v [OF i] f]
    show ?thesis unfolding w1 using p
      by (intro update_fresh_ok [OF assms(1) i]) simp_all
  next
    case (Swap i j)
    with assms(2) have ij: "i < length (w_objs w)" "j < length (w_objs w)"
      by (auto split: if_splits)
    obtain a b where s: "swap (w_objs w ! i) (w_objs w ! j) = (a, b)"
      by (cases "swap (w_objs w ! i) (w_objs w ! j)")
    from assms(2) Swap ij s have "w1 = w\<lparr>w_objs := (w_objs w)[i := a, j := b]\<rparr>" by auto
    with swap_world_ok [OF assms(1) ij s] show ?thesis by simp
  next
    case (ConstructPlus i j)
    with assms(2) have ij: "i < length (w_objs w)" "j < length (w_objs w)"
      and n: "final (new_object w (operator_plus add (w_objs w ! i) (w_objs w ! j) (w_heap w))) =
                Some w1"
      by (auto split: if_splits)
    from n obtain v0 h0 where
      f: "final (operator_plus add (w_objs w ! i) (w_objs w ! j) (w_heap w)) = Some (v0, h0)"
      and w1: "w1 = w\<lparr>w_heap := h0, w_objs := w_objs w @ [v0]\<rparr>"
      by (auto simp: new_object_final)
    from f operator_plus_cases [OF v [OF ij(1)] v [OF ij(2)], of add]
    have "valid_vec v0 h0" "m_ptr v0 = Some (length (w_heap w))"
      "\<forall>b<length (w_heap w). lookup h0 b = lookup (w_heap w) b" by auto
    then show ?thesis unfolding w1 by (intro new_fresh_ok [OF assms(1)]) simp_all
  next
    case (AssignPlus k i j)
    with assms(2) have kij: "k < length (w_objs w)" "i < length (w_objs w)"
        "j < length (w_objs w)"
      and n: "final (set_object w k
          (bindR (operator_plus add (w_objs w ! i) (w_objs w ! j) (w_heap w)) (\<lambda>(c, h1).
             assign (w_objs w ! k) c h1))) = Some w1"
      by (auto split: if_splits)
    from n obtain v0 h0 where
      f: "final (bindR (operator_plus add (w_objs w ! i) (w_objs w ! j) (w_heap w))
            (\<lambda>(c, h1). assign (w_objs w ! k) c h1)) = Some (v0, h0)"
      and w1: "w1 = w\<lparr>w_heap := h0, w_objs := (w_objs w)[k := v0]\<rparr>"
      by (auto simp: set_object_final)
    from f obtain R h1 where
      o: "final (operator_plus add (w_objs w ! i) (w_objs w ! j) (w_heap w)) = Some (R, h1)"
      and a: "final (assign (w_objs w ! k) R h1) = Some (v0, h0)"
      by (auto simp: final_bindR_Some)
    from o operator_plus_cases [OF v [OF kij(2)] v [OF kij(3)], of add]
    have r: "valid_vec R h1" "m_ptr R = Some (length (w_heap w))"
      "\<forall>b<length (w_heap w). lookup h1 b = lookup (w_heap w) b" by auto
    from assign_fresh [OF v [OF kij(1)] r] a
    have "valid_vec v0 h0" "m_ptr v0 = Some (length (w_heap w))"
      "\<forall>b<length (w_heap w). Some b \<noteq> m_ptr (w_objs w ! k) \<longrightarrow>
         lookup h0 b = lookup (w_heap w) b" by auto
    then show ?thesis unfolding w1
      by (intro update_fresh_ok [OF assms(1) kij(1)]) simp_all
  qed
qed


lemma step_foreseen:
  fixes w :: "'a::zero world"
  assumes "world_ok w" "step add c w = Inl e"
  shows "foreseen e"
proof -
  have v: "\<And>k. k < length (w_objs w) \<Longrightarrow> valid_vec (w_objs w ! k) (w_heap w)"
    using assms(1) by (auto simp: world_ok_def)
  have init: "foreseen e" if "new_object w (initSJCVector n nm (w_heap w)) = Inl e" for n nm
    using that initSJCVector_cases [of n nm "w_heap w"]
    by (intro new_object_foreseen [OF that]) auto
  show ?thesis
  proof (cases c)
    case (Construct n)
    with assms(2) show ?thesis by (intro init [of n "[]"]) (simp add: SJCVector_size_def)
  next
    case ConstructDefault
    with assms(2) show ?thesis by (intro init [of 1 "[]"]) (simp add: SJCVector_default_def)
  next
    case (ConstructNamed nm n)
    with assms(2) show ?thesis by (intro init [of n nm]) (simp add: SJCVector_named_def)
  next
    case (CopyConstruct j)
    show ?thesis
    proof (cases "j < length (w_objs w)")
      case True
      with assms(2) CopyConstruct
      have n: "new_object w (copy_ctor (w_objs w ! j) (w_heap w)) = Inl e" by simp
      show ?thesis
        by (rule new_object_foreseen [OF n]) (simp add: copy_ctor_valid [OF v [OF True]])
    next
      case False
      with assms(2) CopyConstruct show ?thesis by auto
    qed
  next
    case (MoveConstruct j)
    with assms(2) show ?thesis by (auto simp: Let_def split: if_splits prod.splits)
  next
    case (AssignCopy i j)
    show ?thesis
    proof (cases "i < length (w_objs w) \<and> j < length (w_objs w)")
      case True
      with assms(2) AssignCopy
      have n: "set_object w i (assign_copy (w_objs w ! i) (w_objs w ! j) (w_heap w)) = Inl e"
        by simp
      from True assign_copy_effect [OF v v, of i j] show ?thesis
        by (intro set_object_foreseen [OF n]) auto
    next
      case False
      with assms(2) AssignCopy show ?thesis by auto
    qed
  next
    case (AssignMove i j)
    show ?thesis
    proof (cases "i < length (w_objs w) \<and> j < length (w_objs w)")
      case True
      then have ij: "i < length (w_objs w)" "j < length (w_objs w)" by simp_all
      obtain c0 r where m: "move_ctor (w_objs w ! j) = (c0, r)"
        by (cases "move_ctor (w_objs w ! j)")
      note p = move_out_ok [OF assms(1) ij(2) m]
      define w0 where "w0 = w\<lparr>w_objs := (w_objs w)[j := r]\<rparr>"
      from p(1) ij(1) have vi: "valid_vec (w_objs w0 ! i) (w_heap w0)"
        by (simp add: world_ok_def w0_def)
      from assms(2) AssignMove ij m
      have n: "set_object w0 i (assign (w_objs w0 ! i) c0 (w_heap w0)) = Inl e"
        by (auto simp: w0_def Let_def)
      show ?thesis
        by (rule set_object_foreseen [OF n]) (simp add: assign_valid [OF vi])
    next
      case False
      with assms(2) AssignMove show ?thesis by auto
    qed
  next
    case (PushBack i x)
    show ?thesis
    proof (cases "i < length (w_objs w)")
      case True
      with assms(2) PushBack
      have n: "set_object w i (push_back x (w_objs w ! i) (w_heap w)) = Inl e" by simp
      show ?thesis
        by (rule set_object_foreseen [OF n]) (rule push_back_foreseen [OF v [OF True]])
    next
      case False
      with assms(2) PushBack show ?thesis by auto
    qed
  next
    case (ResizeTo i n)
    show ?thesis
    proof (cases "i < length (w_objs w)")
      case True
      with assms(2) ResizeTo
      have n: "set_object w i (resize n (w_objs w ! i) (w_heap w)) = Inl e" by simp
      show ?thesis
        by (rule set_object_foreseen [OF n]) (rule resize_foreseen [OF v [OF True]])
    next
      case False
      with assms(2) ResizeTo show ?thesis by auto
    qed
  next
    case (Swap i j)
    with assms(2) show ?thesis by (auto simp: Let_def split: if_splits prod.splits)
  next
    case (ConstructPlus i j)
    show ?thesis
    proof (cases "i < length (w_objs w) \<and> j < length (w_objs w)")
      case True
      with assms(2) ConstructPlus
      have n: "new_object w (operator_plus add (w_objs w ! i) (w_objs w ! j) (w_heap w)) =
                 Inl e" by simp
      from True operator_plus_cases [OF v v, of i j add] show ?thesis
        by (intro new_object_foreseen [OF n]) auto
    next
      case False
      with assms(2) ConstructPlus show ?thesis by auto
    qed
  next
    case (AssignPlus k i j)
    show ?thesis
    proof (cases "k < length (w_objs w) \<and> i < length (w_objs w) \<and> j < length (w_objs w)")
      case True
      then have kij: "k < length (w_objs w)" "i < length (w_objs w)" "j < length (w_objs w)"
        by simp_all
      from assms(2) AssignPlus True
      have n: "set_object w k
          (bindR (operator_plus add (w_objs w ! i) (w_objs w ! j) (w_heap w)) (\<lambda>(c, h1).
             assign (w_objs w ! k) c h1)) = Inl e" by simp
      note o = operator_plus_cases [OF v [OF kij(2)] v [OF kij(3)], of add]
      have "foreseen e'"
        if b: "bindR (operator_plus add (w_objs w ! i) (w_objs w ! j) (w_heap w)) (\<lambda>(c, h1).
             assign (w_objs w ! k) c h1) = Inl e'" for e'
      proof (rule bindR_foreseen [OF b])
        show "\<And>e'. operator_plus add (w_objs w ! i) (w_objs w ! j) (w_heap w) = Inl e' \<Longrightarrow>
                foreseen e'"
          using o by auto
        show "foreseen e'"
          if f: "final (operator_plus add (w_objs w ! i) (w_objs w ! j) (w_heap w)) = Some s"
            and a: "(case s of (c, h1) \<Rightarrow> assign (w_objs w ! k) c h1) = Inl e'" for s e'
        proof -
          obtain R h1 where s: "s = (R, h1)" by (cases s)
          from f o have r: "valid_vec R h1" "m_ptr R = Some (length (w_heap w))"
            "\<forall>b<length (w_heap w). lookup h1 b = lookup (w_heap w) b"
            by (auto simp: s)
          from assign_fresh [OF v [OF kij(1)] r] a show ?thesis by (auto simp: s)
        qed
      qed
      then show ?thesis by (intro set_object_foreseen [OF n])
    next
      case False
      with assms(2) AssignPlus show ?thesis by auto
    qed
  qed
qed

lemma run_world_ok:
  fixes w :: "'a::zero world"
  assumes "world_ok w"
  shows "(\<forall>w1. final (run add cs w) = Some w1 \<longrightarrow> world_ok w1) \<and>
         (\<forall>e. run add cs w = Inl e \<longrightarrow> foreseen e)"
  using assms
proof (induction cs arbitrary: w)
  case Nil
  then show ?case by simp
next
  case (Cons c cs)
  have 1: "world_ok w1" if "final (run add (c # cs) w) = Some w1" for w1
  proof -
    from that obtain w0 where s: "final (step add c w) = Some w0"
      and r: "final (run add cs w0) = Some w1"
      by (auto simp: final_bindR_Some)
    from Cons.IH [OF step_world_ok [OF Cons.prems s]] r show ?thesis by blast
  qed
  have 2: "foreseen e" if "run add (c # cs) w = Inl e" for e
  proof -
    from that have b: "bindR (step add c w) (run add cs) = Inl e" by simp
    show ?thesis
    proof (rule bindR_foreseen [OF b])
      show "\<And>e'. step add c w = Inl e' \<Longrightarrow> foreseen e'"
        by (rule step_foreseen [OF Cons.prems])
      show "\<And>s e'. final (step add c w) = Some s \<Longrightarrow> run add cs s = Inl e' \<Longrightarrow> foreseen e'"
        using Cons.IH [OF step_world_ok [OF Cons.prems]] by blast
    qed
  qed
  from 1 2 show ?case by blast
qed

lemma foreseen_cases:
  "foreseen e \<longleftrightarrow> e = BadAlloc \<or> e = NoSuchObject \<or> e = SignedOverflow \<or> (\<exists>s. e = Overrun s)"
  by (cases e) simp_all

text \<open>
  C7.  Take any program: any sequence of constructions, copies, moves, assignments,
  appends, resizes, swaps and element-wise additions, for any addition of the elements.  In
  the state in which its run from the empty world ends, every container satisfies
  \<open>0 \<le> lastIndex + 1 \<le> capacity\<close>.  The runs that end in a state are the ones that return
  and the ones that have overrun an array on the way, so the containers that a shrinking
  \<^verbatim>\<open>resize\<close> has left, and whatever is made of them afterwards, are among them.  A run that
  does not end in a state has stopped at an allocation that throws, at a call on an object
  that does not exist or at a signed overflow in \<^verbatim>\<open>operator+\<close>: no run ends at an access
  through a null or a dangling pointer, at an access out of bounds or at the release of
  a block that is not live.  Every prefix of a program is a program, so all this holds
  after each call.
\<close>

theorem cursor_invariant:
  fixes w :: "'a::zero world"
  shows "(final (run add cs empty_world) = Some w \<longrightarrow>
            (\<forall>v\<in>set (w_objs w). 0 \<le> m_last v + 1 \<and> m_last v + 1 \<le> int (m_size v))) \<and>
         (run add cs (empty_world :: 'a world) = Inl e \<longrightarrow>
            e = BadAlloc \<or> e = NoSuchObject \<or> e = SignedOverflow \<or> (\<exists>w'. e = Overrun w'))"
proof
  have e: "\<forall>v\<in>set (w_objs (empty_world :: 'a world)). cursor_ok v"
    by (simp add: empty_world_def)
  show "final (run add cs empty_world) = Some w \<longrightarrow>
          (\<forall>v\<in>set (w_objs w). 0 \<le> m_last v + 1 \<and> m_last v + 1 \<le> int (m_size v))"
  proof (intro impI ballI)
    fix v
    assume "final (run add cs empty_world) = Some w" "v \<in> set (w_objs w)"
    with run_ok [OF e] have "cursor_ok v" by blast
    then show "0 \<le> m_last v + 1 \<and> m_last v + 1 \<le> int (m_size v)"
      by (simp add: cursor_ok_def)
  qed
  have "world_ok (empty_world :: 'a world)"
    by (simp add: world_ok_def empty_world_def)
  from run_world_ok [OF this, of add cs]
  show "run add cs (empty_world :: 'a world) = Inl e \<longrightarrow>
          e = BadAlloc \<or> e = NoSuchObject \<or> e = SignedOverflow \<or> (\<exists>w'. e = Overrun w')"
    by (simp add: foreseen_cases)
qed

theorem cursor_invariant_witness:
  "run int_plus
     [ConstructNamed ''nigel'' 1, PushBack 0 3, PushBack 0 56, CopyConstruct 0,
      PushBack 1 9, PushBack 0 1, ConstructPlus 0 1, AssignCopy 1 2, MoveConstruct 0,
      Swap 1 2, ResizeTo 3 10, AssignMove 0 3, AssignPlus 3 1 2, AssignCopy 2 2,
      ResizeTo 1 2, CopyConstruct 1]
     empty_world =
   Inl (Overrun
     \<lparr>w_heap =
        [None, None, None, None, None,
         Some [3, 56, 1, 0, 0, 0, 0, 0, 0, 0], Some [12, 224, 20], Some [6, 112, 10],
         Some [6, 112], Some [6, 112]],
      w_objs =
     [\<lparr>m_ptr = Some 5, m_size = 10, m_first = None, m_last = 2, m_name = ''nigel''\<rparr>,
      \<lparr>m_ptr = Some 8, m_size = 2, m_first = Some 0, m_last = 1, m_name = ''copy''\<rparr>,
      \<lparr>m_ptr = Some 7, m_size = 3, m_first = Some 0, m_last = 2, m_name = ''retVec''\<rparr>,
      \<lparr>m_ptr = Some 6, m_size = 3, m_first = Some 0, m_last = 2, m_name = []\<rparr>,
      \<lparr>m_ptr = Some 9, m_size = 2, m_first = Some 0, m_last = 1, m_name = ''copy''\<rparr>]\<rparr>) \<and>
   list_all (\<lambda>v. 0 \<le> m_last v + 1 \<and> m_last v + 1 \<le> int (m_size v))
     [\<lparr>m_ptr = Some 5, m_size = 10, m_first = None, m_last = 2, m_name = ''nigel''\<rparr>,
      \<lparr>m_ptr = Some 8, m_size = 2, m_first = Some 0, m_last = 1, m_name = ''copy''\<rparr>,
      \<lparr>m_ptr = Some 7, m_size = 3, m_first = Some 0, m_last = 2, m_name = ''retVec''\<rparr>,
      \<lparr>m_ptr = Some 6, m_size = 3, m_first = Some 0, m_last = 2, m_name = []\<rparr>,
      \<lparr>m_ptr = Some 9, m_size = 2, m_first = Some 0, m_last = 1, m_name = ''copy''\<rparr>]"
proof -
  have r: "run int_plus
     [ConstructNamed ''nigel'' 1, PushBack 0 3, PushBack 0 56, CopyConstruct 0,
      PushBack 1 9, PushBack 0 1, ConstructPlus 0 1, AssignCopy 1 2, MoveConstruct 0,
      Swap 1 2, ResizeTo 3 10, AssignMove 0 3, AssignPlus 3 1 2, AssignCopy 2 2,
      ResizeTo 1 2, CopyConstruct 1]
     empty_world =
   Inl (Overrun
     \<lparr>w_heap =
        [None, None, None, None, None,
         Some [3, 56, 1, 0, 0, 0, 0, 0, 0, 0], Some [12, 224, 20], Some [6, 112, 10],
         Some [6, 112], Some [6, 112]],
      w_objs =
     [\<lparr>m_ptr = Some 5, m_size = 10, m_first = None, m_last = 2, m_name = ''nigel''\<rparr>,
      \<lparr>m_ptr = Some 8, m_size = 2, m_first = Some 0, m_last = 1, m_name = ''copy''\<rparr>,
      \<lparr>m_ptr = Some 7, m_size = 3, m_first = Some 0, m_last = 2, m_name = ''retVec''\<rparr>,
      \<lparr>m_ptr = Some 6, m_size = 3, m_first = Some 0, m_last = 2, m_name = []\<rparr>,
      \<lparr>m_ptr = Some 9, m_size = 2, m_first = Some 0, m_last = 1, m_name = ''copy''\<rparr>]\<rparr>)"
    by code_simp
  have "final (run int_plus
     [ConstructNamed ''nigel'' 1, PushBack 0 3, PushBack 0 56, CopyConstruct 0,
      PushBack 1 9, PushBack 0 1, ConstructPlus 0 1, AssignCopy 1 2, MoveConstruct 0,
      Swap 1 2, ResizeTo 3 10, AssignMove 0 3, AssignPlus 3 1 2, AssignCopy 2 2,
      ResizeTo 1 2, CopyConstruct 1]
     empty_world) =
   Some \<lparr>w_heap =
        [None, None, None, None, None,
         Some [3, 56, 1, 0, 0, 0, 0, 0, 0, 0], Some [12, 224, 20], Some [6, 112, 10],
         Some [6, 112], Some [6, 112]],
      w_objs =
     [\<lparr>m_ptr = Some 5, m_size = 10, m_first = None, m_last = 2, m_name = ''nigel''\<rparr>,
      \<lparr>m_ptr = Some 8, m_size = 2, m_first = Some 0, m_last = 1, m_name = ''copy''\<rparr>,
      \<lparr>m_ptr = Some 7, m_size = 3, m_first = Some 0, m_last = 2, m_name = ''retVec''\<rparr>,
      \<lparr>m_ptr = Some 6, m_size = 3, m_first = Some 0, m_last = 2, m_name = []\<rparr>,
      \<lparr>m_ptr = Some 9, m_size = 2, m_first = Some 0, m_last = 1, m_name = ''copy''\<rparr>]\<rparr>"
    unfolding r by simp
  from cursor_invariant [THEN conjunct1, rule_format, OF this] show ?thesis
    unfolding r by (simp add: list_all_iff)
qed

end
